theory Spec2Isabelle
  imports Main "HOL-Library.Word"
begin

section \<open>MapReduce engine (mapreduce.c): data model\<close>

text \<open>
  Strings are C strings: the bytes before the terminating NUL. A \<open>const char*\<close>
  argument is \<open>None\<close> when the pointer is NULL. \<open>size_t\<close> counters are natural
  numbers: a list of 1152-byte records cannot reach the wrap-around of \<open>size_t\<close>.
\<close>

type_synonym byte = "8 word"
type_synonym cstring = "byte list"

definition MAX_THREADS :: int where "MAX_THREADS = 16"
definition MAX_KEY_LENGTH :: nat where "MAX_KEY_LENGTH = 128"
definition MAX_VALUE_LENGTH :: nat where "MAX_VALUE_LENGTH = 1024"
definition INITIAL_BUCKET_SIZE :: nat where "INITIAL_BUCKET_SIZE = 64"
definition PARTITIONS :: nat where "PARTITIONS = 16"

text \<open>
  \<open>struct KeyValue { char key[MAX_KEY_LENGTH]; char value[MAX_VALUE_LENGTH]; }\<close> of
  mapreduce.c (btree.c has a struct of the same name, modelled further down).
\<close>

record MRKeyValue =
  mr_key :: cstring
  mr_value :: cstring

text \<open>
  \<open>KeyValueList\<close>: \<open>list_data\<close> holds the occupied slots \<open>data[0 .. size)\<close>, so the
  field \<open>size\<close> of the C struct is the length of \<open>list_data\<close>.
\<close>

record KeyValueList =
  list_data :: "MRKeyValue list"
  list_capacity :: nat

abbreviation list_size :: "KeyValueList \<Rightarrow> nat" where
  "list_size l \<equiv> length (list_data l)"

text \<open>
  How a call can end without returning normally: \<open>exit(EXIT_FAILURE)\<close>, or a write
  past the end of the allocated array (undefined behaviour in C).
\<close>

datatype failure = ExitFailure | OutOfBounds

text \<open>\<open>create_kv_list\<close>; \<open>malloc_ok\<close> says whether \<open>malloc\<close> returned a block.\<close>

definition create_kv_list :: "bool \<Rightarrow> failure + KeyValueList" where
  "create_kv_list malloc_ok =
     (if \<not> malloc_ok then Inl ExitFailure
      else Inr \<lparr>list_data = [], list_capacity = INITIAL_BUCKET_SIZE\<rparr>)"

text \<open>\<open>strncpy(dst, src, n - 1); dst[n - 1] = '\0'\<close>: the stored C string.\<close>

definition strncpy_term :: "nat \<Rightarrow> cstring \<Rightarrow> cstring" where
  "strncpy_term n src = take (n - 1) src"

text \<open>
  \<open>add_kv_pair(list, key, value)\<close>. The result is the state of \<open>*list\<close> after the
  call (\<open>None\<close> for a NULL list pointer, which has no state). \<open>realloc_ok\<close> says
  whether \<open>realloc\<close> returns a block if it is called.
\<close>

definition add_kv_pair ::
  "bool \<Rightarrow> KeyValueList option \<Rightarrow> cstring option \<Rightarrow> cstring option
     \<Rightarrow> failure + KeyValueList option" where
  "add_kv_pair realloc_ok list key val =
     (case (list, key, val) of
        (Some l, Some k, Some v) \<Rightarrow>
          (let grow = (list_size l \<ge> list_capacity l);
               cap = (if grow then list_capacity l * 2 else list_capacity l)
           in if grow \<and> \<not> realloc_ok then Inl ExitFailure
              else if list_size l \<ge> cap then Inl OutOfBounds
              else Inr (Some \<lparr>list_data = list_data l @
                                  [\<lparr>mr_key = strncpy_term MAX_KEY_LENGTH k,
                                    mr_value = strncpy_term MAX_VALUE_LENGTH v\<rparr>],
                                list_capacity = cap\<rparr>))
      | _ \<Rightarrow> Inr list)"

subsection \<open>The hash function and the routing of emitted pairs\<close>

text \<open>
  \<open>int c = *str++\<close> reads a \<open>char\<close>; whether \<open>char\<close> is signed is fixed by the
  platform, so it is a parameter. \<open>hash + c\<close> converts \<open>c\<close> to \<open>unsigned int\<close>.
\<close>

definition char_to_int :: "bool \<Rightarrow> byte \<Rightarrow> int" where
  "char_to_int char_signed b = (if char_signed then sint b else uint b)"

text \<open>The loop \<open>while ((c = *str++)) hash = ((hash << 5) + hash) + c\<close> over the memory at \<open>str\<close>.\<close>

fun hash_loop :: "bool \<Rightarrow> 32 word \<Rightarrow> byte list \<Rightarrow> 32 word" where
  "hash_loop sg hash [] = hash"
| "hash_loop sg hash (b # str) =
     (if b = 0 then hash
      else hash_loop sg ((push_bit 5 hash + hash) + of_int (char_to_int sg b)) str)"

definition hash_string :: "bool \<Rightarrow> byte list \<Rightarrow> 32 word" where
  "hash_string sg str = hash_loop sg 5381 str"

text \<open>
  The hash in the words of the specification, for comparison with \<open>hash_string\<close>:
  from 5381, every byte \<open>c\<close> of the string (a value from 0 to 255) takes \<open>h\<close> to
  \<open>h * 33 + c\<close> modulo \<open>2 ^ 32\<close>. The argument is the string without its NUL.
\<close>

definition djb2_spec :: "byte list \<Rightarrow> 32 word" where
  "djb2_spec s = foldl (\<lambda>h c. h * 33 + ucast c) 5381 s"

text \<open>
  The body of the inner loop of \<open>run_map_phase\<close> for one emitted pair, executed
  under the partition's mutex: the partition index and the append.
\<close>

definition partition_index :: "bool \<Rightarrow> MRKeyValue \<Rightarrow> nat" where
  "partition_index sg kv = unat (hash_string sg (mr_key kv)) mod PARTITIONS"

definition route_pair ::
  "bool \<Rightarrow> bool \<Rightarrow> KeyValueList list \<Rightarrow> MRKeyValue \<Rightarrow> failure + KeyValueList list" where
  "route_pair sg realloc_ok partitions kv =
     (let p = partition_index sg kv
      in case add_kv_pair realloc_ok (Some (partitions ! p)) (Some (mr_key kv)) (Some (mr_value kv)) of
           Inl e \<Rightarrow> Inl e
         | Inr None \<Rightarrow> Inr partitions
         | Inr (Some l) \<Rightarrow> Inr (partitions[p := l]))"

subsection \<open>The coordinator\<close>

text \<open>
  \<open>MapReduceContext\<close>, without the thread handles and the mutexes; the barrier is
  kept as its party count. The callbacks are values of any types \<open>'m\<close> and \<open>'r\<close>.
\<close>

record ('m, 'r) MapReduceContext =
  ctx_input :: KeyValueList
  ctx_output :: KeyValueList
  ctx_partitions :: "KeyValueList list"
  map_function :: 'm
  reduce_function :: 'r
  num_threads :: int
  phase_barrier_count :: int

text \<open>
  \<open>init_mapreduce\<close>. \<open>ctx_null\<close> says that the context pointer is NULL, a callback
  is \<open>None\<close> for a NULL function pointer. The function returns \<open>void\<close>: it either
  ends the process (\<open>Inl ExitFailure\<close>) or returns with the context filled in.
  \<open>malloc_ok\<close> stands for the eighteen \<open>malloc\<close> calls of \<open>create_kv_list\<close>.
\<close>

definition init_mapreduce ::
  "bool \<Rightarrow> bool \<Rightarrow> int \<Rightarrow> 'm option \<Rightarrow> 'r option
     \<Rightarrow> failure + ('m, 'r) MapReduceContext" where
  "init_mapreduce malloc_ok ctx_null n map_fn reduce_fn =
     (case (ctx_null, map_fn, reduce_fn) of
        (False, Some m, Some r) \<Rightarrow>
          (case create_kv_list malloc_ok of
             Inl e \<Rightarrow> Inl e
           | Inr l \<Rightarrow>
               (let nt = (if n > 0 \<and> n \<le> MAX_THREADS then n else MAX_THREADS)
                in Inr \<lparr>ctx_input = l, ctx_output = l,
                        ctx_partitions = replicate PARTITIONS l,
                        map_function = m, reduce_function = r,
                        num_threads = nt, phase_barrier_count = nt + 1\<rparr>))
      | _ \<Rightarrow> Inl ExitFailure)"

text \<open>
  \<open>run_mapreduce\<close>. A returned result is the return code, the line written to
  stderr, the ids of the worker threads created, and the context afterwards.
  \<open>id_ok\<close> says whether the \<open>malloc\<close> of the thread id of worker 0 succeeds,
  \<open>create_ok\<close> whether its \<open>pthread_create\<close> does.

  The result is \<open>None\<close> where the model gives no result. Once a worker exists the
  behaviour of the C program is undefined: \<open>worker_thread\<close> finds no
  thread-specific context and takes its argument, the block that holds the thread
  id, for the \<open>MapReduceContext\<close>, so it waits on a barrier and reads an input
  list that are not there. With no worker to create (\<open>num_threads \<le> 0\<close>, which
  \<open>init_mapreduce\<close> never sets) the coordinator goes to the barrier alone; that
  run is not modelled either.
\<close>

datatype run_diag =
    No_input_data
  | Failed_to_allocate_thread_ID
  | Failed_to_create_worker_thread nat

definition run_mapreduce ::
  "bool \<Rightarrow> bool \<Rightarrow> ('m, 'r) MapReduceContext option
     \<Rightarrow> (int \<times> run_diag option \<times> nat list \<times> ('m, 'r) MapReduceContext option) option" where
  "run_mapreduce id_ok create_ok ctx =
     (case ctx of
        None \<Rightarrow> Some (-1, Some No_input_data, [], None)
      | Some c \<Rightarrow>
          if list_size (ctx_input c) = 0
          then Some (-1, Some No_input_data, [], Some c)
          else if num_threads c \<le> 0 then None
          else if \<not> id_ok then Some (-1, Some Failed_to_allocate_thread_ID, [], Some c)
          else if \<not> create_ok then Some (-1, Some (Failed_to_create_worker_thread 0), [], Some c)
          else None)"

section \<open>B-tree index (btree.c): data model\<close>

text \<open>
  A node of the C program has the arrays \<open>keys[ORDER - 1]\<close> and \<open>children[ORDER]\<close>
  and the counter \<open>num_keys\<close>. The model keeps the occupied slots only: \<open>keys\<close> is
  \<open>keys[0 .. num_keys)\<close>, so \<open>num_keys\<close> is its length, and \<open>children\<close> of an
  internal node is \<open>children[0 .. num_keys]\<close>; a leaf made by \<open>btree_create_node\<close>
  has only NULL children, the empty list. What the C code leaves in a slot beyond
  \<open>num_keys\<close> it never reads again before writing it, so it is not kept.

  Payloads live in a heap of blocks. A \<open>Value\<close> holds the pointer \<open>data\<close> (\<open>None\<close>
  is NULL) and \<open>data_size\<close>. Nodes are values of the model, not heap blocks:
  no node is shared between two parents.

  An operation returns \<open>None\<close> where the C code would leave defined behaviour or
  the states the model represents: a NULL child dereferenced or stored in an
  occupied slot, a slot read outside the occupied range, an array overrun. \<open>malloc\<close> is taken to return a
  block: the \<open>exit(EXIT_FAILURE)\<close> taken on NULL ends the process and no later
  operation runs. A NULL tree handle makes every operation return at once; the
  model takes the handle as valid.
\<close>

definition ORDER :: nat where "ORDER = 5"

type_synonym addr = nat
type_synonym heap = "addr \<Rightarrow> byte list option"

record Value =
  value_data :: "addr option"
  value_data_size :: nat

record KeyValue =
  kv_key :: int
  kv_value :: Value

datatype BTreeNode = Node (is_leaf: bool) (keys: "KeyValue list") (children: "BTreeNode list")

abbreviation num_keys :: "BTreeNode \<Rightarrow> nat" where
  "num_keys node \<equiv> length (keys node)"

record BTree =
  root :: "BTreeNode option"
  min_degree :: nat

definition btree_create :: BTree where
  "btree_create = \<lparr>root = None, min_degree = ORDER div 2 + (if ORDER mod 2 = 0 then 0 else 1)\<rparr>"

definition btree_create_node :: "bool \<Rightarrow> BTreeNode" where
  "btree_create_node leaf = Node leaf [] []"

text \<open>
  The scan \<open>i = 0; while (i < num_keys && key > keys[i].key) i++\<close> of
  \<open>btree_search_node\<close>; \<open>btree_delete_from_node\<close> runs the same scan.
\<close>

fun key_index :: "int \<Rightarrow> KeyValue list \<Rightarrow> nat" where
  "key_index key [] = 0"
| "key_index key (kv # kvs) = (if key > kv_key kv then Suc (key_index key kvs) else 0)"

function btree_search_node :: "BTreeNode \<Rightarrow> int \<Rightarrow> Value option option" where
  "btree_search_node (Node leaf ks cs) key =
     (let i = key_index key ks
      in if i < length ks \<and> key = kv_key (ks ! i) then Some (Some (kv_value (ks ! i)))
         else if leaf then Some None
         else if i < length cs then btree_search_node (cs ! i) key
         else None)"
  by pat_completeness auto
termination
proof (relation "measure (\<lambda>(node, key). size node)")
  show "wf (measure (\<lambda>(node, key). size node))" by simp
next
  fix leaf :: bool and ks :: "KeyValue list" and cs :: "BTreeNode list" and key :: int and x :: nat
  assume "x < length cs"
  then have "cs ! x \<in> set cs" by simp
  then have "size (cs ! x) < Suc (size_list size cs)"
    by (simp add: size_list_estimation' less_Suc_eq_le)
  then show "((cs ! x, key), Node leaf ks cs, key) \<in> measure (\<lambda>(node, key). size node)"
    by simp
qed

definition btree_search :: "BTree \<Rightarrow> int \<Rightarrow> Value option option" where
  "btree_search tree key =
     (case root tree of None \<Rightarrow> Some None | Some r \<Rightarrow> btree_search_node r key)"

text \<open>
  \<open>btree_split_child(parent, index)\<close>. The new right node receives
  \<open>ORDER / 2 - 1\<close> keys starting at slot \<open>ORDER / 2\<close> and, below an internal
  child, \<open>ORDER / 2\<close> children starting at slot \<open>ORDER / 2\<close>; the child keeps
  \<open>ORDER / 2 - 1\<close> keys; the key in slot \<open>ORDER / 2 - 1\<close> moves up. The callers
  split only a full child of a parent with room, which is the guard.
\<close>

definition btree_split_child :: "BTreeNode \<Rightarrow> nat \<Rightarrow> BTreeNode option" where
  "btree_split_child parent index =
     (if index < length (children parent) \<and> num_keys parent < ORDER - 1
         \<and> index \<le> num_keys parent \<and> length (children parent) = num_keys parent + 1
         \<and> num_keys (children parent ! index) = ORDER - 1
         \<and> (is_leaf (children parent ! index) \<or> length (children (children parent ! index)) = ORDER)
      then
        (let child = children parent ! index;
             new_child = Node (is_leaf child)
                           (take (ORDER div 2 - 1) (drop (ORDER div 2) (keys child)))
                           (if is_leaf child then []
                            else take (ORDER div 2) (drop (ORDER div 2) (children child)));
             child' = Node (is_leaf child)
                        (take (ORDER div 2 - 1) (keys child))
                        (if is_leaf child then children child
                         else take (ORDER div 2) (children child))
         in Some (Node (is_leaf parent)
                    (take index (keys parent) @ [keys child ! (ORDER div 2 - 1)]
                       @ drop index (keys parent))
                    (take index (children parent) @ [child', new_child]
                       @ drop (index + 1) (children parent))))
      else None)"

text \<open>
  \<open>malloc(data_size)\<close> returned the block \<open>p\<close>; \<open>memcpy(p, data, data_size)\<close>
  reads \<open>data_size\<close> bytes of the caller's block at \<open>data\<close>.
\<close>

definition copy_payload :: "heap \<Rightarrow> addr \<Rightarrow> nat \<Rightarrow> addr \<Rightarrow> heap option" where
  "copy_payload h data data_size p =
     (case h data of
        None \<Rightarrow> None
      | Some bytes \<Rightarrow>
          if data_size \<le> length bytes then Some (h(p \<mapsto> take data_size bytes)) else None)"

text \<open>
  The scan \<open>i = num_keys - 1; while (i >= 0 && key < keys[i].key) i--\<close> of
  \<open>btree_insert_non_full\<close>: \<open>insert_index\<close> is \<open>i + 1\<close> at its end.
\<close>

definition insert_index :: "int \<Rightarrow> KeyValue list \<Rightarrow> nat" where
  "insert_index key ks = length ks - length (takeWhile (\<lambda>kv. key < kv_key kv) (rev ks))"

function btree_insert_non_full ::
  "BTreeNode \<Rightarrow> int \<Rightarrow> addr \<Rightarrow> nat \<Rightarrow> addr \<Rightarrow> heap \<Rightarrow> (BTreeNode \<times> heap) option" where
  "btree_insert_non_full (Node leaf ks cs) key data data_size p h =
     (if leaf then
        (if length ks < ORDER - 1 then
           (case copy_payload h data data_size p of
              None \<Rightarrow> None
            | Some h' \<Rightarrow>
                (let i = insert_index key ks
                 in Some (Node leaf
                            (take i ks
                               @ [\<lparr>kv_key = key,
                                   kv_value = \<lparr>value_data = Some p, value_data_size = data_size\<rparr>\<rparr>]
                               @ drop i ks) cs, h')))
         else None)
      else
        (let i = insert_index key ks
         in if i < length cs then
              (if num_keys (cs ! i) = ORDER - 1 then
                 (case btree_split_child (Node leaf ks cs) i of
                    None \<Rightarrow> None
                  | Some node' \<Rightarrow>
                      (let i' = (if key > kv_key (keys node' ! i) then i + 1 else i)
                       in if i' < length (children node') then
                            (case btree_insert_non_full (children node' ! i') key data data_size p h of
                               None \<Rightarrow> None
                             | Some (c, h') \<Rightarrow>
                                 Some (Node (is_leaf node') (keys node') ((children node')[i' := c]), h'))
                          else None))
               else
                 (case btree_insert_non_full (cs ! i) key data data_size p h of
                    None \<Rightarrow> None
                  | Some (c, h') \<Rightarrow> Some (Node leaf ks (cs[i := c]), h')))
            else None))"
  by pat_completeness auto
termination
proof (relation "measure (\<lambda>(node, key, data, data_size, p, h). size node)")
  show "wf (measure (\<lambda>(node, key, data, data_size, p, h). size node))" by simp
next
  fix leaf :: bool and ks :: "KeyValue list" and cs :: "BTreeNode list" and key :: int
    and data data_size p :: nat and h :: heap and x :: nat
  assume "x < length cs"
  then have "cs ! x \<in> set cs" by simp
  then have "size (cs ! x) < Suc (size_list size cs)"
    by (simp add: size_list_estimation' less_Suc_eq_le)
  then show "((cs ! x, key, data, data_size, p, h), Node leaf ks cs, key, data, data_size, p, h)
      \<in> measure (\<lambda>(node, key, data, data_size, p, h). size node)"
    by simp
next
  fix leaf :: bool and ks :: "KeyValue list" and cs :: "BTreeNode list" and key :: int
    and data data_size p :: nat and h :: heap and x :: nat and node' :: BTreeNode and i' :: nat
  assume x: "x < length cs" and full: "num_keys (cs ! x) = ORDER - 1"
    and sp: "btree_split_child (Node leaf ks cs) x = Some node'"
    and i': "i' = (if kv_key (keys node' ! x) < key then x + 1 else x)"
    and "i' < length (children node')"
  have tk: "\<And>(f :: BTreeNode \<Rightarrow> nat) n xs. size_list f (take n xs) \<le> size_list f xs"
  proof -
    fix f :: "BTreeNode \<Rightarrow> nat" and n xs
    have "size_list f (take n xs @ drop n xs) = size_list f (take n xs) + size_list f (drop n xs)"
      by (simp only: size_list_append)
    then show "size_list f (take n xs) \<le> size_list f xs" by simp
  qed
  have dr: "\<And>(f :: BTreeNode \<Rightarrow> nat) n xs. size_list f (drop n xs) \<le> size_list f xs"
  proof -
    fix f :: "BTreeNode \<Rightarrow> nat" and n xs
    have "size_list f (take n xs @ drop n xs) = size_list f (take n xs) + size_list f (drop n xs)"
      by (simp only: size_list_append)
    then show "size_list f (drop n xs) \<le> size_list f xs" by simp
  qed
  obtain cl cks ccs where c: "cs ! x = Node cl cks ccs" by (cases "cs ! x")
  from x have "cs ! x \<in> set cs" by simp
  then have less: "size (cs ! x) < Suc (size_list size cs)"
    by (simp add: size_list_estimation' less_Suc_eq_le)
  have a: "size (Node cl (take (ORDER div 2 - 1) cks)
                   (if cl then ccs else take (ORDER div 2) ccs)) \<le> size (cs ! x)"
    using tk[of size "ORDER div 2" ccs] by (simp add: c)
  have b: "size (Node cl (take (ORDER div 2 - 1) (drop (ORDER div 2) cks))
                   (if cl then [] else take (ORDER div 2) (drop (ORDER div 2) ccs))) \<le> size (cs ! x)"
    using tk[of size "ORDER div 2" "drop (ORDER div 2) ccs"] dr[of size "ORDER div 2" ccs]
    by (simp add: c)
  from sp x have ch: "children node' = take x cs @ [Node cl (take (ORDER div 2 - 1) cks)
                   (if cl then ccs else take (ORDER div 2) ccs), Node cl (take (ORDER div 2 - 1) (drop (ORDER div 2) cks))
                   (if cl then [] else take (ORDER div 2) (drop (ORDER div 2) ccs))] @ drop (x + 1) cs"
    by (auto simp: btree_split_child_def Let_def c split: if_splits)
  have "size (children node' ! i') \<le> size (cs ! x)"
    using a b x by (auto simp: ch i' nth_append)
  with less show "((children node' ! i', key, data, data_size, p, h), Node leaf ks cs, key, data, data_size, p, h)
      \<in> measure (\<lambda>(node, key, data, data_size, p, h). size node)"
    by simp
qed

definition btree_insert ::
  "BTree \<Rightarrow> int \<Rightarrow> addr \<Rightarrow> nat \<Rightarrow> addr \<Rightarrow> heap \<Rightarrow> (BTree \<times> heap) option" where
  "btree_insert tree key data data_size p h =
     (case root tree of
        None \<Rightarrow>
          (case copy_payload h data data_size p of
             None \<Rightarrow> None
           | Some h' \<Rightarrow>
               Some (tree\<lparr>root := Some (Node True
                       [\<lparr>kv_key = key,
                         kv_value = \<lparr>value_data = Some p, value_data_size = data_size\<rparr>\<rparr>] [])\<rparr>, h'))
      | Some r \<Rightarrow>
          if num_keys r = ORDER - 1 then
            (case btree_split_child (Node False [] [r]) 0 of
               None \<Rightarrow> None
             | Some new_root \<Rightarrow>
                 (let i = (if kv_key (keys new_root ! 0) < key then 1 else 0)
                  in case btree_insert_non_full (children new_root ! i) key data data_size p h of
                       None \<Rightarrow> None
                     | Some (c, h') \<Rightarrow>
                         Some (tree\<lparr>root := Some (Node (is_leaf new_root) (keys new_root)
                                                   ((children new_root)[i := c]))\<rparr>, h')))
          else
            (case btree_insert_non_full r key data data_size p h of
               None \<Rightarrow> None
             | Some (r', h') \<Rightarrow> Some (tree\<lparr>root := Some r'\<rparr>, h')))"

text \<open>
  \<open>btree_traverse_node\<close> prints \<open>Level %d: Key=%d\<close> lines; the model returns the
  pairs (level, key) in the order printed. \<open>weave\<close> is its loop: child \<open>i\<close>,
  key \<open>i\<close>, ..., and the child after the last key; a NULL child prints nothing.
\<close>

fun weave :: "'a list list \<Rightarrow> 'a list \<Rightarrow> 'a list" where
  "weave cs [] = (case cs of [] \<Rightarrow> [] | c # _ \<Rightarrow> c)"
| "weave cs (k # ks) = (case cs of [] \<Rightarrow> k # weave [] ks | c # cs' \<Rightarrow> c @ k # weave cs' ks)"

fun btree_traverse_node :: "BTreeNode \<Rightarrow> nat \<Rightarrow> (nat \<times> int) list" where
  "btree_traverse_node (Node leaf ks cs) level =
     (if leaf then map (\<lambda>kv. (level, kv_key kv)) ks
      else weave (map (\<lambda>c. btree_traverse_node c (level + 1)) cs)
                 (map (\<lambda>kv. (level, kv_key kv)) ks))"

definition btree_traverse :: "BTree \<Rightarrow> (nat \<times> int) list" where
  "btree_traverse tree = (case root tree of None \<Rightarrow> [] | Some r \<Rightarrow> btree_traverse_node r 0)"


subsection \<open>Deletion\<close>

text \<open>\<open>free(p)\<close>; \<open>free(NULL)\<close> does nothing.\<close>

definition free_block :: "heap \<Rightarrow> addr option \<Rightarrow> heap" where
  "free_block h p = (case p of None \<Rightarrow> h | Some a \<Rightarrow> h(a := None))"

definition btree_remove_from_leaf :: "BTreeNode \<Rightarrow> nat \<Rightarrow> heap \<Rightarrow> (BTreeNode \<times> heap) option" where
  "btree_remove_from_leaf node idx h =
     (if idx < num_keys node then
        Some (Node (is_leaf node) (take idx (keys node) @ drop (idx + 1) (keys node)) (children node),
              free_block h (value_data (kv_value (keys node ! idx))))
      else None)"

text \<open>
  The walks \<open>while (!cur->is_leaf) cur = cur->children[cur->num_keys]\<close> of
  \<open>btree_get_predecessor\<close> and \<open>cur = cur->children[0]\<close> of
  \<open>btree_get_successor\<close>.
\<close>

function get_predecessor_loop :: "BTreeNode \<Rightarrow> int option" where
  "get_predecessor_loop (Node leaf ks cs) =
     (if leaf then (if ks = [] then None else Some (kv_key (ks ! (length ks - 1))))
      else if length ks < length cs then get_predecessor_loop (cs ! length ks)
      else None)"
  by pat_completeness auto
termination
proof (relation "measure size")
  show "wf (measure size)" by simp
next
  fix leaf :: bool and ks :: "KeyValue list" and cs :: "BTreeNode list"
  assume "length ks < length cs"
  then have "cs ! length ks \<in> set cs" by simp
  then have "size (cs ! length ks) < Suc (size_list size cs)"
    by (simp add: size_list_estimation' less_Suc_eq_le)
  then show "(cs ! length ks, Node leaf ks cs) \<in> measure size" by simp
qed

definition btree_get_predecessor :: "BTreeNode \<Rightarrow> nat \<Rightarrow> int option" where
  "btree_get_predecessor node idx =
     (if idx < length (children node) then get_predecessor_loop (children node ! idx) else None)"

function get_successor_loop :: "BTreeNode \<Rightarrow> int option" where
  "get_successor_loop (Node leaf ks cs) =
     (if leaf then (if ks = [] then None else Some (kv_key (ks ! 0)))
      else if 0 < length cs then get_successor_loop (cs ! 0)
      else None)"
  by pat_completeness auto
termination
proof (relation "measure size")
  show "wf (measure size)" by simp
next
  fix leaf :: bool and ks :: "KeyValue list" and cs :: "BTreeNode list"
  assume "0 < length cs"
  then have "cs ! 0 \<in> set cs" by simp
  then have "size (cs ! 0) < Suc (size_list size cs)"
    by (simp add: size_list_estimation' less_Suc_eq_le)
  then show "(cs ! 0, Node leaf ks cs) \<in> measure size" by simp
qed

definition btree_get_successor :: "BTreeNode \<Rightarrow> nat \<Rightarrow> int option" where
  "btree_get_successor node idx =
     (if idx + 1 < length (children node) then get_successor_loop (children node ! (idx + 1))
      else None)"

definition btree_borrow_from_prev :: "BTreeNode \<Rightarrow> nat \<Rightarrow> BTreeNode option" where
  "btree_borrow_from_prev node idx =
     (if 0 < idx \<and> idx < length (children node) \<and> idx \<le> num_keys node then
        (let child = children node ! idx;
             sibling = children node ! (idx - 1)
         in if num_keys child < ORDER - 1 \<and> 0 < num_keys sibling
               \<and> (\<not> is_leaf child \<longrightarrow>
                    \<not> is_leaf sibling \<and> num_keys sibling < length (children sibling))
            then
              (let child' = Node (is_leaf child)
                              (keys node ! (idx - 1) # keys child)
                              (if is_leaf child then children child
                               else children sibling ! num_keys sibling # children child);
                   sibling' = Node (is_leaf sibling)
                                (take (num_keys sibling - 1) (keys sibling))
                                (take (num_keys sibling) (children sibling))
               in Some (Node (is_leaf node)
                          ((keys node)[idx - 1 := keys sibling ! (num_keys sibling - 1)])
                          ((children node)[idx - 1 := sibling', idx := child'])))
            else None)
      else None)"

definition btree_borrow_from_next :: "BTreeNode \<Rightarrow> nat \<Rightarrow> BTreeNode option" where
  "btree_borrow_from_next node idx =
     (if idx + 1 < length (children node) \<and> idx < num_keys node then
        (let child = children node ! idx;
             sibling = children node ! (idx + 1)
         in if num_keys child < ORDER - 1 \<and> 0 < num_keys sibling
               \<and> (\<not> is_leaf child \<longrightarrow>
                    \<not> is_leaf sibling \<and> 0 < length (children sibling))
            then
              (let child' = Node (is_leaf child)
                              (keys child @ [keys node ! idx])
                              (if is_leaf child then children child
                               else children child @ [children sibling ! 0]);
                   sibling' = Node (is_leaf sibling)
                                (drop 1 (keys sibling))
                                (if is_leaf sibling then children sibling
                                 else drop 1 (children sibling))
               in Some (Node (is_leaf node)
                          ((keys node)[idx := keys sibling ! 0])
                          ((children node)[idx := child', idx + 1 := sibling'])))
            else None)
      else None)"

definition btree_merge_children :: "BTreeNode \<Rightarrow> nat \<Rightarrow> BTreeNode option" where
  "btree_merge_children node idx =
     (if idx + 1 < length (children node) \<and> idx < num_keys node then
        (let child = children node ! idx;
             sibling = children node ! (idx + 1)
         in if num_keys child + 1 + num_keys sibling \<le> ORDER - 1
               \<and> (\<not> is_leaf child \<longrightarrow>
                    \<not> is_leaf sibling \<and> length (children child) = num_keys child + 1
                    \<and> length (children sibling) = num_keys sibling + 1)
            then
              (let child' = Node (is_leaf child)
                              (keys child @ [keys node ! idx] @ keys sibling)
                              (if is_leaf child then children child
                               else children child @ children sibling)
               in Some (Node (is_leaf node)
                          (take idx (keys node) @ drop (idx + 1) (keys node))
                          (take idx (children node) @ [child'] @ drop (idx + 2) (children node))))
            else None)
      else None)"

definition btree_fill_child :: "BTreeNode \<Rightarrow> nat \<Rightarrow> BTreeNode option" where
  "btree_fill_child node idx =
     (if idx < length (children node) then
        (if idx \<noteq> 0 \<and> num_keys (children node ! (idx - 1)) \<ge> ORDER div 2 then
           btree_borrow_from_prev node idx
         else if idx \<noteq> num_keys node \<and> idx + 1 < length (children node)
                 \<and> num_keys (children node ! (idx + 1)) \<ge> ORDER div 2 then
           btree_borrow_from_next node idx
         else if idx \<noteq> num_keys node \<and> \<not> idx + 1 < length (children node) then None
         else if idx = num_keys node then
           (if idx = 0 then None else btree_merge_children node (idx - 1))
         else btree_merge_children node idx)
      else None)"

text \<open>
  The number of nodes of a subtree: the measure that decreases along the recursion
  of \<open>btree_delete_from_node\<close>, which descends into a child after
  \<open>btree_fill_child\<close> has rearranged the node.
\<close>

fun nodes :: "BTreeNode \<Rightarrow> nat" where
  "nodes (Node leaf ks cs) = Suc (sum_list (map nodes cs))"

lemma nodes_children: "nodes n = Suc (sum_list (map nodes (children n)))"
  by (cases n) simp

lemma nodes_nth: "j < length (children n) \<Longrightarrow> nodes (children n ! j) < nodes n"
proof -
  assume "j < length (children n)"
  then have "children n ! j \<in> set (children n)" by simp
  then have "nodes (children n ! j) \<le> sum_list (map nodes (children n))"
    by (simp add: member_le_sum_list)
  then show ?thesis by (simp add: nodes_children[of n])
qed

lemma sum_list_map_update:
  fixes f :: "'a \<Rightarrow> nat"
  shows "i < length xs \<Longrightarrow> sum_list (map f (xs[i := a])) + f (xs ! i) = sum_list (map f xs) + f a"
proof (induction xs arbitrary: i)
  case Nil
  then show ?case by simp
next
  case (Cons x xs)
  then show ?case by (cases i) auto
qed

lemma sum_list_map_take_nth:
  fixes f :: "'a \<Rightarrow> nat"
  shows "i < length xs \<Longrightarrow> sum_list (map f (take i xs)) + f (xs ! i) \<le> sum_list (map f xs)"
proof -
  assume "i < length xs"
  then have "xs = take i xs @ xs ! i # drop (Suc i) xs" by (rule id_take_nth_drop)
  then have "sum_list (map f xs) = sum_list (map f (take i xs)) + f (xs ! i)
      + sum_list (map f (drop (Suc i) xs))"
    by (metis (no_types, lifting) add.assoc list.simps(9) map_append sum_list.Cons sum_list_append)
  then show ?thesis by simp
qed

lemma sum_list_map_drop1:
  fixes f :: "'a \<Rightarrow> nat"
  shows "0 < length xs \<Longrightarrow> sum_list (map f (drop 1 xs)) + f (xs ! 0) = sum_list (map f xs)"
  by (cases xs) auto

lemma nodes_two_updates:
  assumes "i < length cs" "j < length cs" "i \<noteq> j"
    and "nodes a + nodes b \<le> nodes (cs ! i) + nodes (cs ! j)"
  shows "sum_list (map nodes (cs[i := a, j := b])) \<le> sum_list (map nodes cs)"
proof -
  have "sum_list (map nodes (cs[i := a, j := b])) + nodes ((cs[i := a]) ! j)
      = sum_list (map nodes (cs[i := a])) + nodes b"
    using assms(2) by (intro sum_list_map_update) simp
  moreover have "sum_list (map nodes (cs[i := a])) + nodes (cs ! i) = sum_list (map nodes cs) + nodes a"
    using assms(1) by (rule sum_list_map_update)
  moreover have "(cs[i := a]) ! j = cs ! j" using assms(3) by simp
  ultimately show ?thesis using assms(4) by simp
qed

lemma nodes_borrow_from_prev:
  assumes "btree_borrow_from_prev n i = Some n'"
  shows "nodes n' \<le> nodes n"
proof -
  obtain c where c: "c = children n ! i" by simp
  obtain s where s: "s = children n ! (i - 1)" by simp
  define c' where "c' = Node (is_leaf c) (keys n ! (i - 1) # keys c)
               (if is_leaf c then children c else children s ! num_keys s # children c)"
  define s' where "s' = Node (is_leaf s) (take (num_keys s - 1) (keys s))
               (take (num_keys s) (children s))"
  from assms have g: "0 < i" "i < length (children n)"
    and g2: "\<not> is_leaf c \<longrightarrow> num_keys s < length (children s)"
    and n': "children n' = (children n)[i - 1 := s', i := c']"
    by (auto simp: btree_borrow_from_prev_def Let_def c s c'_def s'_def split: if_splits)
  have tk: "sum_list (map nodes (take (num_keys s) (children s))) \<le> sum_list (map nodes (children s))"
  proof -
    have "sum_list (map nodes (take (num_keys s) (children s) @ drop (num_keys s) (children s)))
        = sum_list (map nodes (take (num_keys s) (children s)))
          + sum_list (map nodes (drop (num_keys s) (children s)))"
      by (simp only: map_append sum_list_append)
    then show ?thesis by simp
  qed
  have "nodes s' + nodes c' \<le> nodes s + nodes c"
    using g2 tk sum_list_map_take_nth[of "num_keys s" "children s" nodes]
    by (auto simp: nodes_children[of c] nodes_children[of s] c'_def s'_def)
  then have "sum_list (map nodes ((children n)[i - 1 := s', i := c'])) \<le> sum_list (map nodes (children n))"
    using g by (intro nodes_two_updates) (auto simp: c s)
  then show ?thesis
    by (simp add: nodes_children[of n] nodes_children[of n'] n')
qed

lemma nodes_borrow_from_next:
  assumes "btree_borrow_from_next n i = Some n'"
  shows "nodes n' \<le> nodes n"
proof -
  obtain c where c: "c = children n ! i" by simp
  obtain s where s: "s = children n ! (i + 1)" by simp
  define c' where "c' = Node (is_leaf c) (keys c @ [keys n ! i])
               (if is_leaf c then children c else children c @ [children s ! 0])"
  define s' where "s' = Node (is_leaf s) (drop 1 (keys s))
               (if is_leaf s then children s else drop 1 (children s))"
  from assms have g: "i + 1 < length (children n)"
    and g2: "\<not> is_leaf c \<longrightarrow> \<not> is_leaf s \<and> 0 < length (children s)"
    and n': "children n' = (children n)[i := c', i + 1 := s']"
    by (auto simp: btree_borrow_from_next_def Let_def c s c'_def s'_def split: if_splits)
  have d: "sum_list (map nodes (drop 1 (children s))) \<le> sum_list (map nodes (children s))"
    by (cases "children s") auto
  have "nodes c' + nodes s' \<le> nodes c + nodes s"
    using g2 sum_list_map_drop1[of "children s" nodes] d
    by (auto simp: nodes_children[of c] nodes_children[of s] c'_def s'_def)
  then have "sum_list (map nodes ((children n)[i := c', i + 1 := s'])) \<le> sum_list (map nodes (children n))"
    using g by (intro nodes_two_updates) (auto simp: c s)
  then show ?thesis
    by (simp add: nodes_children[of n] nodes_children[of n'] n')
qed

lemma nodes_merge_children:
  assumes "btree_merge_children n i = Some n'"
  shows "nodes n' \<le> nodes n"
proof -
  obtain c where c: "c = children n ! i" by simp
  obtain s where s: "s = children n ! (i + 1)" by simp
  define c' where "c' = Node (is_leaf c) (keys c @ [keys n ! i] @ keys s)
               (if is_leaf c then children c else children c @ children s)"
  from assms have g: "i + 1 < length (children n)"
    and n': "children n' = take i (children n) @ [c'] @ drop (i + 2) (children n)"
    by (auto simp: btree_merge_children_def Let_def c s c'_def split: if_splits)
  have "children n = take i (children n) @ c # s # drop (i + 2) (children n)"
    using g unfolding c s
    by (metis Cons_nth_drop_Suc Suc_eq_plus1 add_2_eq_Suc' add_lessD1 id_take_nth_drop)
  then have "sum_list (map nodes (children n)) = sum_list (map nodes (take i (children n) @ c # s # drop (i + 2) (children n)))"
    by simp
  then have "sum_list (map nodes (children n)) = sum_list (map nodes (take i (children n))) + nodes c + nodes s
      + sum_list (map nodes (drop (i + 2) (children n)))"
    by simp
  moreover have "nodes c' \<le> nodes c + nodes s"
    by (auto simp: nodes_children[of c] nodes_children[of s] c'_def)
  ultimately show ?thesis
    by (simp add: nodes_children[of n] nodes_children[of n'] n')
qed

lemma nodes_fill_child: "btree_fill_child n i = Some n' \<Longrightarrow> nodes n' \<le> nodes n"
  by (auto simp: btree_fill_child_def nodes_borrow_from_prev nodes_borrow_from_next
        nodes_merge_children split: if_splits)

lemma nodes_same_children: "nodes (Node a b (children c)) = nodes c"
  by (cases c) simp

lemma nodes_nth_Suc: "Suc j < length (children n) \<Longrightarrow> Suc (2 * nodes (children n ! j)) < 2 * nodes n"
  using nodes_nth[of j n] by simp

text \<open>
  \<open>btree_delete_from_node\<close> and \<open>btree_remove_from_non_leaf\<close> call each other.
  In cases 2a and 2b the C code copies the value of the LAST (first) slot of the
  direct child into the node, whatever leaf the predecessor (successor) key came
  from, clears that slot's pointer and deletes the key in the child.
\<close>

function btree_delete_from_node :: "BTreeNode \<Rightarrow> int \<Rightarrow> heap \<Rightarrow> (bool \<times> BTreeNode \<times> heap) option"
  and btree_remove_from_non_leaf :: "BTreeNode \<Rightarrow> nat \<Rightarrow> heap \<Rightarrow> (BTreeNode \<times> heap) option" where
  "btree_delete_from_node node key h =
     (let idx = key_index key (keys node)
      in if idx < num_keys node \<and> kv_key (keys node ! idx) = key then
           (if is_leaf node then
              (case btree_remove_from_leaf node idx h of
                 None \<Rightarrow> None
               | Some (node', h') \<Rightarrow> Some (True, node', h'))
            else
              (case btree_remove_from_non_leaf node idx h of
                 None \<Rightarrow> None
               | Some (node', h') \<Rightarrow> Some (True, node', h')))
         else if is_leaf node then Some (False, node, h)
         else if idx < length (children node) then
           (let flag = (idx = num_keys node)
            in case (if num_keys (children node ! idx) < ORDER div 2
                     then btree_fill_child node idx else Some node) of
                 None \<Rightarrow> None
               | Some node' \<Rightarrow>
                   (let j = (if flag \<and> idx > num_keys node' then idx - 1 else idx)
                    in if j < length (children node') then
                         (case btree_delete_from_node (children node' ! j) key h of
                            None \<Rightarrow> None
                          | Some (result, c, h') \<Rightarrow>
                              Some (result,
                                    Node (is_leaf node') (keys node') ((children node')[j := c]), h'))
                       else None))
         else None)"
| "btree_remove_from_non_leaf node idx h =
     (if idx < num_keys node \<and> idx + 1 < length (children node) then
        (let key = kv_key (keys node ! idx)
         in if num_keys (children node ! idx) \<ge> ORDER div 2 then
              (case btree_get_predecessor node idx of
                 None \<Rightarrow> None
               | Some pred \<Rightarrow>
                   (let h1 = free_block h (value_data (kv_value (keys node ! idx)));
                        child = children node ! idx;
                        last = num_keys child - 1;
                        moved = kv_value (keys child ! last);
                        child1 = Node (is_leaf child)
                                   ((keys child)[last := \<lparr>kv_key = kv_key (keys child ! last),
                                       kv_value = moved\<lparr>value_data := None\<rparr>\<rparr>])
                                   (children child)
                    in case btree_delete_from_node child1 pred h1 of
                         None \<Rightarrow> None
                       | Some (result, c, h2) \<Rightarrow>
                           Some (Node (is_leaf node)
                                   ((keys node)[idx := \<lparr>kv_key = pred, kv_value = moved\<rparr>])
                                   ((children node)[idx := c]), h2)))
            else if num_keys (children node ! (idx + 1)) \<ge> ORDER div 2 then
              (case btree_get_successor node idx of
                 None \<Rightarrow> None
               | Some succ \<Rightarrow>
                   (let h1 = free_block h (value_data (kv_value (keys node ! idx)));
                        child = children node ! (idx + 1);
                        moved = kv_value (keys child ! 0);
                        child1 = Node (is_leaf child)
                                   ((keys child)[0 := \<lparr>kv_key = kv_key (keys child ! 0),
                                       kv_value = moved\<lparr>value_data := None\<rparr>\<rparr>])
                                   (children child)
                    in case btree_delete_from_node child1 succ h1 of
                         None \<Rightarrow> None
                       | Some (result, c, h2) \<Rightarrow>
                           Some (Node (is_leaf node)
                                   ((keys node)[idx := \<lparr>kv_key = succ, kv_value = moved\<rparr>])
                                   ((children node)[idx + 1 := c]), h2)))
            else
              (case btree_merge_children node idx of
                 None \<Rightarrow> None
               | Some node' \<Rightarrow>
                   if idx < length (children node') then
                     (case btree_delete_from_node (children node' ! idx) key h of
                        None \<Rightarrow> None
                      | Some (result, c, h') \<Rightarrow>
                          Some (Node (is_leaf node') (keys node') ((children node')[idx := c]), h'))
                   else None))
      else None)"
  by pat_completeness auto
termination
proof (relation "measure (\<lambda>x. case x of Inl (node, key, h) \<Rightarrow> 2 * nodes node + 1
                                       | Inr (node, idx, h) \<Rightarrow> 2 * nodes node)")
  show "wf (measure (\<lambda>x. case x of Inl (node, key, h) \<Rightarrow> 2 * nodes node + 1
                                       | Inr (node, idx, h) \<Rightarrow> 2 * nodes (node :: BTreeNode)))"
    by simp
qed (auto dest!: nodes_fill_child nodes_merge_children dest: nodes_nth split: if_splits
       simp del: nodes.simps simp add: nodes_same_children nodes_nth_Suc)

declare btree_delete_from_node.simps [simp del] btree_remove_from_non_leaf.simps [simp del]

definition btree_delete :: "BTree \<Rightarrow> int \<Rightarrow> heap \<Rightarrow> (bool \<times> BTree \<times> heap) option" where
  "btree_delete tree key h =
     (case root tree of
        None \<Rightarrow> Some (False, tree, h)
      | Some r \<Rightarrow>
          (case btree_delete_from_node r key h of
             None \<Rightarrow> None
           | Some (result, r', h') \<Rightarrow>
               if num_keys r' = 0 then
                 Some (result,
                       tree\<lparr>root := (if is_leaf r' then None
                                      else (case children r' of [] \<Rightarrow> None | c # _ \<Rightarrow> Some c))\<rparr>,
                       h')
               else Some (result, tree\<lparr>root := Some r'\<rparr>, h')))"

section \<open>Observations and well-formedness used by the theorems\<close>

text \<open>
  The key/value slots of a subtree in the order of the in-order walk of
  \<open>btree_traverse_node\<close>, and the contents of a tree.
\<close>

fun inorder :: "BTreeNode \<Rightarrow> KeyValue list" where
  "inorder (Node leaf ks cs) = (if leaf then ks else weave (map inorder cs) ks)"

definition btree_entries :: "BTree \<Rightarrow> KeyValue list" where
  "btree_entries tree = (case root tree of None \<Rightarrow> [] | Some r \<Rightarrow> inorder r)"

text \<open>The bytes a stored value points to.\<close>

definition payload :: "heap \<Rightarrow> Value \<Rightarrow> byte list option" where
  "payload h v = (case value_data v of None \<Rightarrow> None
                  | Some a \<Rightarrow> map_option (take (value_data_size v)) (h a))"

text \<open>All keys stored in the nodes of a subtree (a leaf has no children to look at).\<close>

fun node_keys :: "BTreeNode \<Rightarrow> int set" where
  "node_keys (Node leaf ks cs) =
     kv_key ` set ks \<union> (if leaf then {} else (\<Union>c \<in> set cs. node_keys c))"

text \<open>
  \<open>slots_ok\<close>: no node holds more than \<open>ORDER - 1\<close> keys and an internal node with
  \<open>n\<close> keys has \<open>n + 1\<close> children. \<open>keys_sorted\<close>: the keys of every node
  increase strictly.
\<close>

fun slots_ok :: "BTreeNode \<Rightarrow> bool" where
  "slots_ok (Node leaf ks cs) =
     (length ks \<le> ORDER - 1 \<and>
      (\<not> leaf \<longrightarrow> length cs = length ks + 1 \<and> (\<forall>c \<in> set cs. slots_ok c)))"

fun keys_sorted :: "BTreeNode \<Rightarrow> bool" where
  "keys_sorted (Node leaf ks cs) =
     (sorted_wrt (<) (map kv_key ks) \<and> (\<not> leaf \<longrightarrow> (\<forall>c \<in> set cs. keys_sorted c)))"

text \<open>
  \<open>btree_shape d\<close>: all leaves at depth \<open>d\<close>, every node with at least one and at
  most \<open>ORDER - 1\<close> keys, an internal node with one child more than keys. One key
  is the lower bound the code keeps: its split leaves \<open>ORDER / 2 - 1 = 1\<close> key in
  each half. \<open>depth\<close> follows the leftmost path.
\<close>

fun btree_shape :: "nat \<Rightarrow> BTreeNode \<Rightarrow> bool" where
  "btree_shape 0 (Node leaf ks cs) = (leaf \<and> 1 \<le> length ks \<and> length ks \<le> ORDER - 1)"
| "btree_shape (Suc d) (Node leaf ks cs) =
     (\<not> leaf \<and> 1 \<le> length ks \<and> length ks \<le> ORDER - 1 \<and> length cs = length ks + 1
      \<and> (\<forall>c \<in> set cs. btree_shape d c))"

fun depth :: "BTreeNode \<Rightarrow> nat" where
  "depth (Node leaf ks cs) =
     (if leaf then 0 else (case cs of [] \<Rightarrow> 0 | c # _ \<Rightarrow> Suc (depth c)))"

definition sorted_tree :: "BTreeNode \<Rightarrow> bool" where
  "sorted_tree node = sorted_wrt (<) (map kv_key (inorder node))"

definition btree_wf :: "BTree \<Rightarrow> bool" where
  "btree_wf tree =
     (case root tree of None \<Rightarrow> True
      | Some r \<Rightarrow> btree_shape (depth r) r \<and> sorted_tree r)"

section \<open>Scenarios\<close>

text \<open>
  A run of \<open>btree_insert\<close> calls from a given state; each call is the key, the
  caller's buffer, \<open>data_size\<close> and the block \<open>malloc\<close> returns.
\<close>

fun insert_all ::
  "BTree \<times> heap \<Rightarrow> (int \<times> addr \<times> nat \<times> addr) list \<Rightarrow> (BTree \<times> heap) option" where
  "insert_all th [] = Some th"
| "insert_all (t, h) ((key, data, data_size, p) # ops) =
     (case btree_insert t key data data_size p h of
        None \<Rightarrow> None
      | Some th' \<Rightarrow> insert_all th' ops)"

text \<open>
  The caller's buffers: block 0 holds the one-byte dummy payload, block \<open>100 + k\<close>
  holds the byte \<open>k\<close> (a payload that names its key).
\<close>

definition caller_heap :: heap where
  "caller_heap = (\<lambda>a. if a = 0 then Some [0]
                       else if 100 \<le> a \<and> a < 200 then Some [of_nat (a - 100)] else None)"

text \<open>Scenario B1: the keys 10, 20, 5, 6, 12, 30, 7, 17 with the dummy payload.\<close>

definition scenario_B1 :: "(int \<times> addr \<times> nat \<times> addr) list" where
  "scenario_B1 = [(10, 0, 1, 1), (20, 0, 1, 2), (5, 0, 1, 3), (6, 0, 1, 4),
                  (12, 0, 1, 5), (30, 0, 1, 6), (7, 0, 1, 7), (17, 0, 1, 8)]"

text \<open>The keys 1 to 5 in ascending order, key \<open>k\<close> with the payload byte \<open>k\<close>.\<close>

definition ascending_5 :: "(int \<times> addr \<times> nat \<times> addr) list" where
  "ascending_5 = [(1, 101, 1, 1), (2, 102, 1, 2), (3, 103, 1, 3), (4, 104, 1, 4), (5, 105, 1, 5)]"

section \<open>MapReduce: theorems\<close>

lemma hash_loop_fold:
  "hash_loop sg h s = foldl (\<lambda>h c. h * 33 + of_int (char_to_int sg c)) h (takeWhile (\<lambda>c. c \<noteq> 0) s)"
  by (induction s arbitrary: h) (simp_all add: push_bit_eq_mult mult.commute)

text \<open>
  An unsigned \<open>char\<close>, and a signed one below 128, enters the sum as the value of
  its byte.
\<close>

lemma char_unsigned: "(of_int (uint (c :: byte)) :: 32 word) = ucast c"
  by transfer simp

lemma char_low:
  assumes "(c :: byte) < 128"
  shows "sint c = uint c"
proof -
  from assms have "uint c < 128" by (simp add: word_less_alt)
  then have 1: "uint c < 2 ^ 7" by simp
  have 0: "0 \<le> uint c" by (rule uint_ge_0)
  have "(- (2 ^ 7) :: int) \<le> 0" by simp
  from this 0 have 2: "- (2 ^ 7) \<le> uint c" by (rule order_trans)
  have "signed_take_bit 7 (uint c) = uint c"
    using 2 1 by (rule signed_take_bit_int_eq_self)
  then show ?thesis by (simp add: sint_uint)
qed

lemma char_to_int_byte:
  "\<not> sg \<or> c < 128 \<Longrightarrow> (of_int (char_to_int sg c) :: 32 word) = ucast c"
  by (auto simp: char_to_int_def char_low char_unsigned)

lemma foldl_char_to_int:
  "\<not> sg \<or> (\<forall>c \<in> set s. c < 128) \<Longrightarrow>
   foldl (\<lambda>h c. h * 33 + of_int (char_to_int sg c)) h s
     = foldl (\<lambda>h c. h * 33 + ucast c) (h :: 32 word) s"
proof (induction s arbitrary: h)
  case Nil
  show ?case by simp
next
  case (Cons c s)
  from Cons.prems have "\<not> sg \<or> c < 128" by auto
  then have c: "(of_int (char_to_int sg c) :: 32 word) = ucast c" by (rule char_to_int_byte)
  from Cons.prems have "\<not> sg \<or> (\<forall>c \<in> set s. c < 128)" by auto
  then show ?case by (simp add: c Cons.IH)
qed

text \<open>
  C8, as stated, fails where \<open>char\<close> is signed: the byte \<open>0xFF\<close> is read as \<open>-1\<close>, so
  the hash of the one-byte key \<open>0xFF\<close> is \<open>5381 * 33 - 1 = 177572\<close>, while
  \<open>h * 33 + c\<close> with the byte value 255 gives \<open>177828\<close>.
\<close>

theorem hash_string_signed_char_counterexample:
  "hash_string True [255] = 177572 \<and> djb2_spec [255] = 177828"
  by (simp add: hash_string_def char_to_int_def djb2_spec_def)

text \<open>
  C8, amended. \<open>hash_string\<close> starts from 5381 and takes \<open>h\<close> to \<open>h * 33 + c\<close> modulo
  \<open>2 ^ 32\<close> for each char \<open>c\<close> of the string (up to its NUL), \<open>c\<close> being the
  \<open>int\<close> the C code reads from the \<open>char\<close>. This is the byte-wise hash of the
  specification where \<open>char\<close> is unsigned, and for every string of bytes below
  128 where it is signed. An emitted pair goes to partition
  \<open>hash_string key mod PARTITIONS\<close>, which is below 16. On 16 partitions, the
  destination being a list as the program makes them (\<open>0 < capacity\<close>,
  \<open>size \<le> capacity\<close>), the pair is appended to it and no other partition changes;
  a full destination is doubled first, and if \<open>realloc\<close> fails then the process
  exits instead.
\<close>

theorem hash_string_djb2:
  "hash_string sg s = foldl (\<lambda>h c. h * 33 + of_int (char_to_int sg c)) 5381 (takeWhile (\<lambda>c. c \<noteq> 0) s)
   \<and> (\<not> sg \<or> (\<forall>c \<in> set s. c < 128) \<longrightarrow> hash_string sg s = djb2_spec (takeWhile (\<lambda>c. c \<noteq> 0) s))
   \<and> partition_index sg kv = unat (hash_string sg (mr_key kv)) mod 16
   \<and> partition_index sg kv < PARTITIONS
   \<and> (length partitions = PARTITIONS
        \<and> 0 < list_capacity (partitions ! partition_index sg kv)
        \<and> list_size (partitions ! partition_index sg kv) \<le> list_capacity (partitions ! partition_index sg kv)
        \<and> (list_size (partitions ! partition_index sg kv) = list_capacity (partitions ! partition_index sg kv)
             \<longrightarrow> realloc_ok)
      \<longrightarrow> route_pair sg realloc_ok partitions kv =
            Inr (partitions[partition_index sg kv :=
                   \<lparr>list_data = list_data (partitions ! partition_index sg kv)
                        @ [\<lparr>mr_key = take 127 (mr_key kv), mr_value = take 1023 (mr_value kv)\<rparr>],
                    list_capacity =
                      (if list_size (partitions ! partition_index sg kv)
                            = list_capacity (partitions ! partition_index sg kv)
                       then 2 * list_capacity (partitions ! partition_index sg kv)
                       else list_capacity (partitions ! partition_index sg kv))\<rparr>]))
   \<and> (list_size (partitions ! partition_index sg kv) = list_capacity (partitions ! partition_index sg kv)
        \<and> \<not> realloc_ok
      \<longrightarrow> route_pair sg realloc_ok partitions kv = Inl ExitFailure)"
proof (intro conjI impI)
  show "hash_string sg s = foldl (\<lambda>h c. h * 33 + of_int (char_to_int sg c)) 5381 (takeWhile (\<lambda>c. c \<noteq> 0) s)"
    by (simp add: hash_string_def hash_loop_fold)
  show "partition_index sg kv = unat (hash_string sg (mr_key kv)) mod 16"
    by (simp add: partition_index_def PARTITIONS_def)
  show "partition_index sg kv < PARTITIONS"
    by (simp add: partition_index_def PARTITIONS_def)
next
  assume a: "\<not> sg \<or> (\<forall>c \<in> set s. c < 128)"
  have "set (takeWhile (\<lambda>c. c \<noteq> 0) s) \<subseteq> set s" by (auto dest: set_takeWhileD)
  with a have "\<not> sg \<or> (\<forall>c \<in> set (takeWhile (\<lambda>c. c \<noteq> 0) s). c < 128)" by blast
  then show "hash_string sg s = djb2_spec (takeWhile (\<lambda>c. c \<noteq> 0) s)"
    by (simp only: hash_string_def hash_loop_fold djb2_spec_def foldl_char_to_int)
next
  let ?p = "partition_index sg kv"
  let ?l = "partitions ! ?p"
  assume a: "length partitions = PARTITIONS
        \<and> 0 < list_capacity ?l
        \<and> list_size ?l \<le> list_capacity ?l
        \<and> (list_size ?l = list_capacity ?l \<longrightarrow> realloc_ok)"
  show "route_pair sg realloc_ok partitions kv =
            Inr (partitions[?p :=
                   \<lparr>list_data = list_data ?l
                        @ [\<lparr>mr_key = take 127 (mr_key kv), mr_value = take 1023 (mr_value kv)\<rparr>],
                    list_capacity =
                      (if list_size ?l = list_capacity ?l
                       then 2 * list_capacity ?l else list_capacity ?l)\<rparr>])"
  proof (cases "list_size ?l = list_capacity ?l")
    case True
    with a have "\<not> list_capacity ?l * 2 \<le> list_size ?l" by arith
    with a True show ?thesis
      by (simp add: route_pair_def add_kv_pair_def Let_def strncpy_term_def
          MAX_KEY_LENGTH_def MAX_VALUE_LENGTH_def mult.commute)
  next
    case False
    with a have "\<not> list_capacity ?l \<le> list_size ?l" by arith
    with False show ?thesis
      by (simp add: route_pair_def add_kv_pair_def Let_def strncpy_term_def
          MAX_KEY_LENGTH_def MAX_VALUE_LENGTH_def)
  qed
next
  let ?p = "partition_index sg kv"
  let ?l = "partitions ! ?p"
  assume "list_size ?l = list_capacity ?l \<and> \<not> realloc_ok"
  then show "route_pair sg realloc_ok partitions kv = Inl ExitFailure"
    by (simp add: route_pair_def add_kv_pair_def Let_def)
qed

theorem hash_string_djb2_witness:
  "hash_string False [97, 255, 0, 98] = djb2_spec [97, 255]
   \<and> hash_string True [97, 98] = 5863208
   \<and> partition_index True \<lparr>mr_key = [97, 98], mr_value = [49]\<rparr> = 8
   \<and> route_pair True False (replicate 16 \<lparr>list_data = [], list_capacity = 64\<rparr>)
        \<lparr>mr_key = [97, 98], mr_value = [49]\<rparr>
      = Inr ((replicate 16 \<lparr>list_data = [], list_capacity = 64\<rparr>)
              [8 := \<lparr>list_data = [\<lparr>mr_key = [97, 98], mr_value = [49]\<rparr>], list_capacity = 64\<rparr>])
   \<and> route_pair True True
        (replicate 16 \<lparr>list_data = [\<lparr>mr_key = [97, 98], mr_value = [48]\<rparr>], list_capacity = 1\<rparr>)
        \<lparr>mr_key = [97, 98], mr_value = [49]\<rparr>
      = Inr ((replicate 16 \<lparr>list_data = [\<lparr>mr_key = [97, 98], mr_value = [48]\<rparr>], list_capacity = 1\<rparr>)
              [8 := \<lparr>list_data = [\<lparr>mr_key = [97, 98], mr_value = [48]\<rparr>,
                                  \<lparr>mr_key = [97, 98], mr_value = [49]\<rparr>], list_capacity = 2\<rparr>])
   \<and> route_pair True False
        (replicate 16 \<lparr>list_data = [\<lparr>mr_key = [97, 98], mr_value = [48]\<rparr>], list_capacity = 1\<rparr>)
        \<lparr>mr_key = [97, 98], mr_value = [49]\<rparr>
      = Inl ExitFailure"
proof -
  have h: "hash_string True [97, 98] = 5863208"
    by (simp add: hash_string_def char_to_int_def)
  have p: "partition_index True \<lparr>mr_key = [97, 98], mr_value = [49]\<rparr> = 8"
    by (simp add: partition_index_def h PARTITIONS_def)
  have 1: "hash_string False [97, 255, 0, 98] = djb2_spec [97, 255]"
    using hash_string_djb2[where sg = False and s = "[97, 255, 0, 98]", THEN conjunct2, THEN conjunct1]
    by simp
  have 2: "route_pair True False (replicate 16 \<lparr>list_data = [], list_capacity = 64\<rparr>)
        \<lparr>mr_key = [97, 98], mr_value = [49]\<rparr>
      = Inr ((replicate 16 \<lparr>list_data = [], list_capacity = 64\<rparr>)
              [8 := \<lparr>list_data = [\<lparr>mr_key = [97, 98], mr_value = [49]\<rparr>], list_capacity = 64\<rparr>])"
    using hash_string_djb2[where sg = True and s = "[97, 98]"
        and kv = "\<lparr>mr_key = [97, 98], mr_value = [49]\<rparr>"
        and partitions = "replicate 16 \<lparr>list_data = [], list_capacity = 64\<rparr>"
        and realloc_ok = False]
    by (simp add: p h PARTITIONS_def)
  have 3: "route_pair True True
        (replicate 16 \<lparr>list_data = [\<lparr>mr_key = [97, 98], mr_value = [48]\<rparr>], list_capacity = 1\<rparr>)
        \<lparr>mr_key = [97, 98], mr_value = [49]\<rparr>
      = Inr ((replicate 16 \<lparr>list_data = [\<lparr>mr_key = [97, 98], mr_value = [48]\<rparr>], list_capacity = 1\<rparr>)
              [8 := \<lparr>list_data = [\<lparr>mr_key = [97, 98], mr_value = [48]\<rparr>,
                                  \<lparr>mr_key = [97, 98], mr_value = [49]\<rparr>], list_capacity = 2\<rparr>])"
    using hash_string_djb2[where sg = True and s = "[97, 98]"
        and kv = "\<lparr>mr_key = [97, 98], mr_value = [49]\<rparr>"
        and partitions = "replicate 16 \<lparr>list_data = [\<lparr>mr_key = [97, 98], mr_value = [48]\<rparr>], list_capacity = 1\<rparr>"
        and realloc_ok = True]
    by (simp add: p h PARTITIONS_def)
  have 4: "route_pair True False
        (replicate 16 \<lparr>list_data = [\<lparr>mr_key = [97, 98], mr_value = [48]\<rparr>], list_capacity = 1\<rparr>)
        \<lparr>mr_key = [97, 98], mr_value = [49]\<rparr>
      = Inl ExitFailure"
    using hash_string_djb2[where sg = True and s = "[97, 98]"
        and kv = "\<lparr>mr_key = [97, 98], mr_value = [49]\<rparr>"
        and partitions = "replicate 16 \<lparr>list_data = [\<lparr>mr_key = [97, 98], mr_value = [48]\<rparr>], list_capacity = 1\<rparr>"
        and realloc_ok = False]
    by (simp add: p h PARTITIONS_def)
  from 1 h p 2 3 4 show ?thesis by (intro conjI)
qed

text \<open>
  The lists the program makes keep \<open>0 < capacity\<close> and \<open>size \<le> capacity\<close>:
  \<open>create_kv_list\<close> starts with capacity 64 and \<open>add_kv_pair\<close> doubles a full list.
\<close>

lemma create_kv_list_inv:
  "create_kv_list ok = Inr l \<Longrightarrow> 0 < list_capacity l \<and> list_size l \<le> list_capacity l"
  by (auto simp: create_kv_list_def INITIAL_BUCKET_SIZE_def split: if_splits)

lemma add_kv_pair_inv:
  "add_kv_pair ok (Some l) (Some k) (Some v) = Inr (Some l') \<Longrightarrow>
   0 < list_capacity l \<Longrightarrow> list_size l \<le> list_capacity l \<Longrightarrow>
   0 < list_capacity l' \<and> list_size l' \<le> list_capacity l'"
  by (auto simp: add_kv_pair_def Let_def Suc_le_eq split: if_splits)

text \<open>
  C10. With a NULL list, key or value \<open>add_kv_pair\<close> returns normally and leaves the
  list as it was. With all three present, on a list as the program makes them
  (\<open>0 < capacity\<close>, \<open>size \<le> capacity\<close>) and with \<open>realloc\<close> succeeding when the list
  is full, exactly one pair is appended: the copies of key and value cut to 127 and
  1023 chars, and the size grows by one.
\<close>

theorem add_kv_pair_spec:
  "(list = None \<or> key = None \<or> val = None \<longrightarrow> add_kv_pair realloc_ok list key val = Inr list) \<and>
   (list = Some l \<and> key = Some k \<and> val = Some v \<and>
    0 < list_capacity l \<and> list_size l \<le> list_capacity l \<and>
    (list_size l = list_capacity l \<longrightarrow> realloc_ok) \<longrightarrow>
      (\<exists>l'. add_kv_pair realloc_ok list key val = Inr (Some l') \<and>
         list_data l' = list_data l @ [\<lparr>mr_key = take 127 k, mr_value = take 1023 v\<rparr>] \<and>
         list_size l' = list_size l + 1))"
proof (intro conjI impI)
  assume "list = None \<or> key = None \<or> val = None"
  then show "add_kv_pair realloc_ok list key val = Inr list"
    by (auto simp: add_kv_pair_def split: option.splits)
next
  assume a: "list = Some l \<and> key = Some k \<and> val = Some v \<and>
    0 < list_capacity l \<and> list_size l \<le> list_capacity l \<and>
    (list_size l = list_capacity l \<longrightarrow> realloc_ok)"
  show "\<exists>l'. add_kv_pair realloc_ok list key val = Inr (Some l') \<and>
         list_data l' = list_data l @ [\<lparr>mr_key = take 127 k, mr_value = take 1023 v\<rparr>] \<and>
         list_size l' = list_size l + 1"
  proof (cases "list_size l = list_capacity l")
    case True
    with a have "\<not> list_capacity l * 2 \<le> list_size l" by arith
    with a True show ?thesis
      by (simp add: add_kv_pair_def Let_def strncpy_term_def MAX_KEY_LENGTH_def MAX_VALUE_LENGTH_def)
  next
    case False
    with a have "\<not> list_capacity l \<le> list_size l" by arith
    with a show ?thesis
      by (simp add: add_kv_pair_def Let_def strncpy_term_def MAX_KEY_LENGTH_def MAX_VALUE_LENGTH_def)
  qed
qed

theorem add_kv_pair_spec_witness:
  "add_kv_pair False None (Some [97]) (Some [49]) = Inr None
   \<and> add_kv_pair False (Some \<lparr>list_data = [], list_capacity = 64\<rparr>) None (Some [49])
       = Inr (Some \<lparr>list_data = [], list_capacity = 64\<rparr>)
   \<and> (\<exists>l'. add_kv_pair False (Some \<lparr>list_data = [], list_capacity = 64\<rparr>) (Some [97]) (Some [49])
              = Inr (Some l')
          \<and> list_data l' = [\<lparr>mr_key = [97], mr_value = [49]\<rparr>] \<and> list_size l' = 1)"
  using add_kv_pair_spec[where list = None and key = "Some [97]" and val = "Some [49]"
      and realloc_ok = False]
    add_kv_pair_spec[where list = "Some \<lparr>list_data = [], list_capacity = 64\<rparr>" and key = None
      and val = "Some [49]" and realloc_ok = False]
    add_kv_pair_spec[where list = "Some \<lparr>list_data = [], list_capacity = 64\<rparr>"
      and key = "Some [97]" and val = "Some [49]"
      and l = "\<lparr>list_data = [], list_capacity = 64\<rparr>" and k = "[97]" and v = "[49]"
      and realloc_ok = False]
  by simp

text \<open>
  C6, as the claim states it, fails: with \<open>W = 0\<close> and both callbacks present
  \<open>init_mapreduce\<close> returns normally with a context of 16 threads, and with a missing
  map callback it ends the process.
\<close>

theorem init_mapreduce_invalid_counterexample:
  "init_mapreduce True False 0 (Some ()) (Some ()) =
     Inr \<lparr>ctx_input = \<lparr>list_data = [], list_capacity = 64\<rparr>,
          ctx_output = \<lparr>list_data = [], list_capacity = 64\<rparr>,
          ctx_partitions = replicate 16 \<lparr>list_data = [], list_capacity = 64\<rparr>,
          map_function = (), reduce_function = (),
          num_threads = 16, phase_barrier_count = 17\<rparr>
   \<and> init_mapreduce True False 4 (None :: unit option) (Some ()) = Inl ExitFailure"
  by (simp add: init_mapreduce_def create_kv_list_def MAX_THREADS_def PARTITIONS_def
        INITIAL_BUCKET_SIZE_def)

text \<open>
  C6 amended. \<open>init_mapreduce\<close> returns no failure to its caller. With a NULL
  context or a missing callback it ends the process with \<open>exit(EXIT_FAILURE)\<close>,
  before anything is allocated. Otherwise (allocation succeeding) it returns with
  the callbacks bound, empty input and output, and \<open>W\<close> threads when
  \<open>1 \<le> W \<le> 16\<close>, 16 threads for every other \<open>W\<close>.
\<close>

theorem init_mapreduce_behaviour:
  "(ctx_null \<or> map_fn = None \<or> reduce_fn = None \<longrightarrow>
      init_mapreduce malloc_ok ctx_null W map_fn reduce_fn = Inl ExitFailure) \<and>
   (\<not> ctx_null \<and> map_fn = Some m \<and> reduce_fn = Some r \<and> malloc_ok \<longrightarrow>
      (\<exists>c. init_mapreduce malloc_ok ctx_null W map_fn reduce_fn = Inr c
         \<and> num_threads c = (if 1 \<le> W \<and> W \<le> 16 then W else 16)
         \<and> phase_barrier_count c = num_threads c + 1
         \<and> map_function c = m \<and> reduce_function c = r
         \<and> list_data (ctx_input c) = [] \<and> list_data (ctx_output c) = []
         \<and> length (ctx_partitions c) = 16))"
  by (cases ctx_null; cases map_fn; cases reduce_fn)
     (auto simp: init_mapreduce_def create_kv_list_def MAX_THREADS_def PARTITIONS_def Let_def)

theorem init_mapreduce_behaviour_witness:
  "init_mapreduce True False 0 (None :: unit option) (Some ()) = Inl ExitFailure
   \<and> (\<exists>c. init_mapreduce True False 99 (Some ()) (Some ()) = Inr c \<and> num_threads c = 16)
   \<and> (\<exists>c. init_mapreduce True False 4 (Some ()) (Some ()) = Inr c \<and> num_threads c = 4)"
  using init_mapreduce_behaviour[where ctx_null = False and map_fn = "None :: unit option"
      and reduce_fn = "Some ()" and malloc_ok = True and W = 0]
    init_mapreduce_behaviour[where ctx_null = False and map_fn = "Some ()" and reduce_fn = "Some ()"
      and m = "()" and r = "()" and malloc_ok = True and W = 99]
    init_mapreduce_behaviour[where ctx_null = False and map_fn = "Some ()" and reduce_fn = "Some ()"
      and m = "()" and r = "()" and malloc_ok = True and W = 4]
  by auto

text \<open>
  C7. On a context whose input list is empty \<open>run_mapreduce\<close> returns -1 after the
  line \<open>No input data for MapReduce\<close>, creates no worker thread and leaves the
  context as it was; so the output list, empty in a context that
  \<open>init_mapreduce\<close> has just filled in, is still empty.
\<close>

theorem run_mapreduce_empty_input:
  assumes "list_data (ctx_input c) = []"
  shows "run_mapreduce id_ok create_ok (Some c) = Some (-1, Some No_input_data, [], Some c)
    \<and> (init_mapreduce malloc_ok False W (Some m) (Some r) = Inr c \<longrightarrow> list_data (ctx_output c) = [])"
  using assms
  by (auto simp: run_mapreduce_def init_mapreduce_def create_kv_list_def Let_def split: if_splits)

theorem run_mapreduce_empty_input_witness:
  "\<exists>c. init_mapreduce True False 4 (Some ()) (Some ()) = Inr c
     \<and> list_data (ctx_input c) = []
     \<and> run_mapreduce True True (Some c) = Some (-1, Some No_input_data, [], Some c)
     \<and> list_data (ctx_output c) = []"
proof -
  let ?l = "\<lparr>list_data = [], list_capacity = 64\<rparr>"
  let ?c = "\<lparr>ctx_input = ?l, ctx_output = ?l, ctx_partitions = replicate 16 ?l,
             map_function = (), reduce_function = (),
             num_threads = 4, phase_barrier_count = 5\<rparr>"
  have c: "init_mapreduce True False 4 (Some ()) (Some ()) = Inr ?c"
    by (simp add: init_mapreduce_def create_kv_list_def MAX_THREADS_def PARTITIONS_def
          INITIAL_BUCKET_SIZE_def)
  have i: "list_data (ctx_input ?c) = []" by simp
  from run_mapreduce_empty_input[OF i, where id_ok = True and create_ok = True
      and malloc_ok = True and W = 4 and m = "()" and r = "()"] c
  show ?thesis by simp
qed

section \<open>B-tree: the split and what follows from it\<close>

text \<open>
  C1. What the code does on scenario B1: the first split of the root drops key 20
  and the split of the right leaf drops key 30, so the traversal prints
  5, 6, 7, 10, 12, 17 (levels 1, 0, 1, 0, 1, 1) and the root holds the two keys
  6 and 10; the claim expects all eight keys and the root key 10.
\<close>

theorem scenario_B1_traversal:
  "map_option (btree_traverse \<circ> fst) (insert_all (btree_create, caller_heap) scenario_B1)
     = Some [(1, 5), (0, 6), (1, 7), (0, 10), (1, 12), (1, 17)]
   \<and> map_option (map_option (map kv_key \<circ> keys) \<circ> root \<circ> fst)
       (insert_all (btree_create, caller_heap) scenario_B1) = Some (Some [6, 10])"
  by (simp add: scenario_B1_def caller_heap_def btree_create_def btree_insert_def
        btree_split_child_def copy_payload_def insert_index_def btree_traverse_def ORDER_def Let_def)

text \<open>
  C2. What \<open>btree_split_child\<close> does with a full child \<open>k0 k1 k2 k3\<close>: the left
  node keeps \<open>k0\<close> only, \<open>k1\<close> moves up, the right node receives \<open>k2\<close> only, and
  \<open>k3\<close> with its payload is in neither; below an internal child the fifth child
  \<open>c4\<close> is dropped as well. The claim has the left node keep \<open>k0 k1\<close>, \<open>k2\<close>
  move up and the right node receive \<open>k3\<close>.
\<close>

theorem split_child_loses_last_key:
  "btree_split_child (Node False [] [Node True [k0, k1, k2, k3] []]) 0
     = Some (Node False [k1] [Node True [k0] [], Node True [k2] []])
   \<and> btree_split_child (Node False [] [Node False [k0, k1, k2, k3] [c0, c1, c2, c3, c4]]) 0
     = Some (Node False [k1] [Node False [k0] [c0, c1], Node False [k2] [c2, c3]])"
  by (simp add: btree_split_child_def ORDER_def Let_def)

text \<open>
  C3. After inserting 1, 2, 3, 4, 5 the left child of the root holds one key,
  below the minimum \<open>t - 1 = 2\<close> that the claim and the code's own
  \<open>min_degree = 3\<close> ask of a non-root node.
\<close>

theorem ascending_5_underfull_node:
  "map_option (root \<circ> fst) (insert_all (btree_create, caller_heap) ascending_5)
     = Some (Some (Node False
         [\<lparr>kv_key = 2, kv_value = \<lparr>value_data = Some 2, value_data_size = 1\<rparr>\<rparr>]
         [Node True [\<lparr>kv_key = 1, kv_value = \<lparr>value_data = Some 1, value_data_size = 1\<rparr>\<rparr>] [],
          Node True [\<lparr>kv_key = 3, kv_value = \<lparr>value_data = Some 3, value_data_size = 1\<rparr>\<rparr>,
                     \<lparr>kv_key = 5, kv_value = \<lparr>value_data = Some 5, value_data_size = 1\<rparr>\<rparr>] []]))
   \<and> min_degree btree_create = 3"
  by (simp add: ascending_5_def caller_heap_def btree_create_def btree_insert_def
        btree_split_child_def copy_payload_def insert_index_def ORDER_def Let_def)

text \<open>
  C4. After inserting 1, 2, 3, 4, 5 (each key once, nothing deleted) the search for
  key 4 returns NULL, while the search for key 3 returns the byte inserted with it.
\<close>

theorem ascending_5_search_4_empty:
  "(case insert_all (btree_create, caller_heap) ascending_5 of
      None \<Rightarrow> None
    | Some (t, h) \<Rightarrow> Some (btree_search t 4, map_option (payload h) (the (btree_search t 3))))
     = Some (Some None, Some (Some [3]))"
  by (simp add: ascending_5_def caller_heap_def btree_create_def btree_insert_def
        btree_split_child_def copy_payload_def insert_index_def ORDER_def Let_def
        btree_search_def payload_def)

section \<open>B-tree: an insert stores a snapshot of the payload\<close>

lemma key_index_le: "key_index key ks \<le> length ks"
  by (induction ks) auto

lemma key_index_prefix: "x \<in> set (take (key_index key ks) ks) \<Longrightarrow> kv_key x < key"
  by (induction ks) (auto split: if_splits)

lemma key_index_stop: "key_index key ks < length ks \<Longrightarrow> \<not> key > kv_key (ks ! key_index key ks)"
  by (induction ks) auto

lemma key_index_append:
  "\<forall>x \<in> set xs. kv_key x < key \<Longrightarrow> key_index key (xs @ ys) = length xs + key_index key ys"
  by (induction xs) auto

lemma key_index_drop: "key_index key (drop (key_index key ks) ks) = 0"
  by (induction ks) auto

lemma insert_index_le: "insert_index key ks \<le> length ks"
  by (simp add: insert_index_def)

lemma insert_index_eq_key_index:
  "sorted_wrt (<) (map kv_key ks) \<Longrightarrow> key \<notin> kv_key ` set ks \<Longrightarrow>
   insert_index key ks = key_index key ks"
proof (induction ks)
  case Nil
  then show ?case by (simp add: insert_index_def)
next
  case (Cons k ks)
  show ?case
  proof (cases "key > kv_key k")
    case True
    then have "takeWhile (\<lambda>kv. key < kv_key kv) (rev ks @ [k]) = takeWhile (\<lambda>kv. key < kv_key kv) (rev ks)"
      by (intro takeWhile_tail) simp
    moreover have "length (takeWhile (\<lambda>kv. key < kv_key kv) (rev ks)) \<le> length ks"
      using length_takeWhile_le[of _ "rev ks"] by simp
    ultimately have "insert_index key (k # ks) = Suc (insert_index key ks)"
      by (simp add: insert_index_def Suc_diff_le)
    with Cons True show ?thesis by simp
  next
    case False
    with Cons.prems have lt: "key < kv_key k" by auto
    with Cons.prems have "\<forall>x \<in> set ks. key < kv_key x" by auto
    then have "takeWhile (\<lambda>kv. key < kv_key kv) (rev (k # ks)) = rev (k # ks)"
      using lt by (intro takeWhile_eq_all_conv[THEN iffD2]) auto
    then have "insert_index key (k # ks) = 0"
      unfolding insert_index_def by (simp only: length_rev diff_self_eq_0)
    then show ?thesis using False by simp
  qed
qed

lemma search_node_descend:
  assumes "\<not> leaf" "key_index key ks = j" "key \<notin> kv_key ` set ks" "j < length cs"
  shows "btree_search_node (Node leaf ks cs) key = btree_search_node (cs ! j) key"
  using assms by (auto simp: Let_def)

lemma split_child_full:
  assumes "i < length cs" "length ks < ORDER - 1" "length cs = length ks + 1"
    and "cs ! i = Node cl [k0, k1, k2, k3] ccs" "cl \<or> length ccs = 5"
  shows "btree_split_child (Node l ks cs) i =
    Some (Node l (take i ks @ k1 # drop i ks)
            (take i cs @ [Node cl [k0] (if cl then ccs else take 2 ccs),
                          Node cl [k2] (if cl then [] else take 2 (drop 2 ccs))] @ drop (Suc i) cs))"
  using assms by (auto simp: btree_split_child_def ORDER_def Let_def)

lemma length4:
  assumes "length (xs :: 'a list) = 4"
  obtains a b c d where "xs = [a, b, c, d]"
proof -
  from assms obtain a xs1 where 1: "xs = a # xs1" "length xs1 = 3" by (cases xs) auto
  then obtain b xs2 where 2: "xs1 = b # xs2" "length xs2 = 2" by (cases xs1) auto
  then obtain c xs3 where 3: "xs2 = c # xs3" "length xs3 = 1" by (cases xs2) auto
  then obtain d where 4: "xs3 = [d]" by (cases xs3) auto
  from 1 2 3 4 that show ?thesis by simp
qed

lemma insert_non_full_search:
  assumes "slots_ok n" "keys_sorted n" "num_keys n < ORDER - 1" "key \<notin> node_keys n"
    and "copy_payload h data sz p = Some h'"
  shows "\<exists>n'. btree_insert_non_full n key data sz p h = Some (n', h')
      \<and> btree_search_node n' key = Some (Some \<lparr>value_data = Some p, value_data_size = sz\<rparr>)"
  using assms
proof (induction n key data sz p h rule: btree_insert_non_full.induct)
  case (1 leaf ks cs key data sz p h)
  let ?new = "\<lparr>kv_key = key, kv_value = \<lparr>value_data = Some p, value_data_size = sz\<rparr>\<rparr>"
  let ?i = "insert_index key ks"
  from "1.prems" have sorted: "sorted_wrt (<) (map kv_key ks)" and notin: "key \<notin> kv_key ` set ks"
    and room: "length ks < ORDER - 1"
    by auto
  have ik: "?i = key_index key ks" using sorted notin by (rule insert_index_eq_key_index)
  have pre: "\<forall>x \<in> set (take ?i ks). kv_key x < key"
    using key_index_prefix[of _ key ks] by (auto simp: ik)
  have ile: "?i \<le> length ks" by (rule insert_index_le)
  show ?case
  proof (cases leaf)
    case True
    have "key_index key (take ?i ks @ ?new # drop ?i ks) = ?i"
      using pre ile by (simp add: key_index_append)
    moreover have "(take ?i ks @ ?new # drop ?i ks) ! ?i = ?new"
      using ile by (simp add: nth_append)
    ultimately show ?thesis
      using True room "1.prems"(5) ile by (simp add: Let_def)
  next
    case False
    from False "1.prems" have len: "length cs = length ks + 1"
      and cok: "\<forall>c \<in> set cs. slots_ok c"  and csorted: "\<forall>c \<in> set cs. keys_sorted c"
      by auto
    have i_lt: "?i < length cs" using ile len by simp
    then have mem: "cs ! ?i \<in> set cs" by simp
    have notin_c: "key \<notin> node_keys (cs ! ?i)" using "1.prems"(4) mem False by auto
    show ?thesis
    proof (cases "num_keys (cs ! ?i) = ORDER - 1")
      case full: True
      obtain cl cks ccs where c: "cs ! ?i = Node cl cks ccs" by (cases "cs ! ?i")
      from full c have "length cks = 4" by (simp add: ORDER_def)
      then obtain k0 k1 k2 k3 where cks: "cks = [k0, k1, k2, k3]" by (rule length4)
      from cok mem c have okc: "slots_ok (Node cl cks ccs)" by metis
      from csorted mem c have sc: "keys_sorted (Node cl cks ccs)" by metis
      from okc cks have cc: "cl \<or> length ccs = 5" by (auto simp: ORDER_def)
      define L where "L = Node cl [k0] (if cl then ccs else take 2 ccs)"
      define R where "R = Node cl [k2] (if cl then [] else take 2 (drop 2 ccs))"
      define nks where "nks = take ?i ks @ k1 # drop ?i ks"
      define ncs where "ncs = take ?i cs @ [L, R] @ drop (Suc ?i) cs"
      define i' where "i' = (if key > kv_key k1 then ?i + 1 else ?i)"
      have sp: "btree_split_child (Node leaf ks cs) ?i = Some (Node leaf nks ncs)"
        using split_child_full[OF i_lt room len, of cl k0 k1 k2 k3 ccs leaf] c cks cc
        by (simp add: L_def R_def nks_def ncs_def)
      have k1i: "nks ! ?i = k1" using ile by (simp add: nks_def nth_append)
      have i'_eq: "i' = (if key > kv_key (keys (Node leaf nks ncs) ! ?i) then ?i + 1 else ?i)"
        by (simp add: i'_def k1i)
      have i'_lt: "i' < length ncs" using i_lt by (auto simp: ncs_def i'_def)
      have chi: "ncs ! i' = (if key > kv_key k1 then R else L)"
        using i_lt by (simp add: ncs_def i'_def nth_append)
      from okc cks have okL: "slots_ok L" and okR: "slots_ok R"
        by (auto simp: L_def R_def ORDER_def dest!: in_set_takeD in_set_dropD)
      from sc cks have sL: "keys_sorted L" and sR: "keys_sorted R"
        by (auto simp: L_def R_def dest!: in_set_takeD in_set_dropD)
      from notin_c c cks have nL: "key \<notin> node_keys L" and nR: "key \<notin> node_keys R"
        and nk1: "key \<noteq> kv_key k1"
        by (auto simp: L_def R_def dest!: in_set_takeD in_set_dropD)
      have nkL: "num_keys L < ORDER - 1" and nkR: "num_keys R < ORDER - 1"
        by (simp_all add: L_def R_def ORDER_def)
      have "\<exists>r. btree_insert_non_full (ncs ! i') key data sz p h = Some (r, h')
          \<and> btree_search_node r key = Some (Some \<lparr>value_data = Some p, value_data_size = sz\<rparr>)"
      proof (rule "1.IH"(1)[OF False refl i_lt full sp i'_eq, simplified])
        show "i' < length ncs" by (rule i'_lt)
        show "slots_ok (ncs ! i')" using okL okR by (simp add: chi)
        show "keys_sorted (ncs ! i')" using sL sR by (simp add: chi)
        show "num_keys (ncs ! i') < ORDER - Suc 0" using nkL nkR by (simp add: chi)
        show "key \<notin> node_keys (ncs ! i')" using nL nR by (simp add: chi)
        show "copy_payload h data sz p = Some h'" by (rule "1.prems"(5))
      qed
      then obtain r where r: "btree_insert_non_full (ncs ! i') key data sz p h = Some (r, h')"
        and sr: "btree_search_node r key = Some (Some \<lparr>value_data = Some p, value_data_size = sz\<rparr>)"
        by blast
      have ki: "key_index key nks = i'"
        using pre ile key_index_drop[of key ks]
        by (simp add: key_index_append ik nks_def i'_def)
      have notin': "key \<notin> kv_key ` set nks"
        using notin nk1 by (auto simp: nks_def dest!: in_set_takeD in_set_dropD)
      have "btree_search_node (Node leaf nks (ncs[i' := r])) key
          = btree_search_node ((ncs[i' := r]) ! i') key"
        using False ki notin' i'_lt by (intro search_node_descend) simp_all
      then have "btree_search_node (Node leaf nks (ncs[i' := r])) key
          = Some (Some \<lparr>value_data = Some p, value_data_size = sz\<rparr>)"
        using i'_lt sr by simp
      then show ?thesis
        using False i_lt full sp r i'_lt i'_eq
        by (simp add: Let_def del: btree_search_node.simps)
    next
      case nf: False
      from cok mem nf have room_c: "num_keys (cs ! ?i) < ORDER - 1"
        by (cases "cs ! ?i") auto
      from "1.IH"(2)[OF False refl i_lt nf] cok csorted mem room_c notin_c "1.prems"(5)
      obtain r where r: "btree_insert_non_full (cs ! ?i) key data sz p h = Some (r, h')"
        and sr: "btree_search_node r key = Some (Some \<lparr>value_data = Some p, value_data_size = sz\<rparr>)"
        by blast
      have "btree_search_node (Node leaf ks (cs[?i := r])) key = btree_search_node ((cs[?i := r]) ! ?i) key"
        using False ik notin i_lt by (intro search_node_descend) simp_all
      then have "btree_search_node (Node leaf ks (cs[?i := r])) key
          = Some (Some \<lparr>value_data = Some p, value_data_size = sz\<rparr>)"
        using i_lt sr False by simp
      then show ?thesis
        using False i_lt nf r by (simp add: Let_def del: btree_search_node.simps)
    qed
  qed
qed


lemma copy_payload_fresh:
  assumes "h data = Some bytes" "data_size \<le> length bytes"
  shows "copy_payload h data data_size p = Some (h(p \<mapsto> take data_size bytes))"
  using assms by (simp add: copy_payload_def)

text \<open>
  On nodes with \<open>slots_ok\<close> the insert returns, whatever the keys are, and keeps
  \<open>slots_ok\<close>; its only effect on the heap is the copy into the new block.
\<close>

lemma insert_non_full_total:
  assumes "slots_ok n" "num_keys n < ORDER - 1" "copy_payload h data sz p = Some h'"
  shows "\<exists>n'. btree_insert_non_full n key data sz p h = Some (n', h') \<and> slots_ok n'"
  using assms
proof (induction n key data sz p h rule: btree_insert_non_full.induct)
  case (1 leaf ks cs key data sz p h)
  let ?i = "insert_index key ks"
  from "1.prems" have room: "length ks < ORDER - 1" by simp
  have ile: "?i \<le> length ks" by (rule insert_index_le)
  show ?case
  proof (cases leaf)
    case True
    then show ?thesis
      using room "1.prems"(3) ile by (simp add: Let_def)
  next
    case False
    from False "1.prems" have len: "length cs = length ks + 1"
      and cok: "\<forall>c \<in> set cs. slots_ok c"
      by auto
    have i_lt: "?i < length cs" using ile len by simp
    then have mem: "cs ! ?i \<in> set cs" by simp
    show ?thesis
    proof (cases "num_keys (cs ! ?i) = ORDER - 1")
      case full: True
      obtain cl cks ccs where c: "cs ! ?i = Node cl cks ccs" by (cases "cs ! ?i")
      from full c have "length cks = 4" by (simp add: ORDER_def)
      then obtain k0 k1 k2 k3 where cks: "cks = [k0, k1, k2, k3]" by (rule length4)
      from cok mem c have okc: "slots_ok (Node cl cks ccs)" by metis
      from okc cks have cc: "cl \<or> length ccs = 5" by (auto simp: ORDER_def)
      define L where "L = Node cl [k0] (if cl then ccs else take 2 ccs)"
      define R where "R = Node cl [k2] (if cl then [] else take 2 (drop 2 ccs))"
      define nks where "nks = take ?i ks @ k1 # drop ?i ks"
      define ncs where "ncs = take ?i cs @ [L, R] @ drop (Suc ?i) cs"
      define i' where "i' = (if key > kv_key k1 then ?i + 1 else ?i)"
      have sp: "btree_split_child (Node leaf ks cs) ?i = Some (Node leaf nks ncs)"
        using split_child_full[OF i_lt room len, of cl k0 k1 k2 k3 ccs leaf] c cks cc
        by (simp add: L_def R_def nks_def ncs_def)
      have k1i: "nks ! ?i = k1" using ile by (simp add: nks_def nth_append)
      have i'_eq: "i' = (if key > kv_key (keys (Node leaf nks ncs) ! ?i) then ?i + 1 else ?i)"
        by (simp add: i'_def k1i)
      have i'_lt: "i' < length ncs" using i_lt by (auto simp: ncs_def i'_def)
      have chi: "ncs ! i' = (if key > kv_key k1 then R else L)"
        using i_lt by (simp add: ncs_def i'_def nth_append)
      from okc cks have okL: "slots_ok L" and okR: "slots_ok R"
        by (auto simp: L_def R_def ORDER_def dest!: in_set_takeD in_set_dropD)
      have nkL: "num_keys L < ORDER - 1" and nkR: "num_keys R < ORDER - 1"
        by (simp_all add: L_def R_def ORDER_def)
      have "\<exists>r. btree_insert_non_full (ncs ! i') key data sz p h = Some (r, h') \<and> slots_ok r"
      proof (rule "1.IH"(1)[OF False refl i_lt full sp i'_eq, simplified])
        show "i' < length ncs" by (rule i'_lt)
        show "slots_ok (ncs ! i')" using okL okR by (simp add: chi)
        show "num_keys (ncs ! i') < ORDER - Suc 0" using nkL nkR by (simp add: chi)
        show "copy_payload h data sz p = Some h'" by (rule "1.prems"(3))
      qed
      then obtain r where r: "btree_insert_non_full (ncs ! i') key data sz p h = Some (r, h')"
        and okr: "slots_ok r"
        by blast
      have "\<forall>c \<in> set ncs. slots_ok c"
        using cok okL okR by (auto simp: ncs_def dest!: in_set_takeD in_set_dropD)
      then have all: "\<forall>c \<in> set (ncs[i' := r]). slots_ok c"
        using okr set_update_subset_insert[of ncs i' r] by auto
      have "length nks = length ks + 1" using ile by (simp add: nks_def)
      moreover have "length ncs = length cs + 1" using i_lt by (simp add: ncs_def)
      ultimately have "slots_ok (Node leaf nks (ncs[i' := r]))"
        using all room len by simp
      then show ?thesis
        using False i_lt full sp r i'_lt i'_eq
        by (simp add: Let_def del: slots_ok.simps)
    next
      case nf: False
      from cok mem nf have room_c: "num_keys (cs ! ?i) < ORDER - 1"
        by (cases "cs ! ?i") auto
      from "1.IH"(2)[OF False refl i_lt nf] cok mem room_c "1.prems"(3)
      obtain r where r: "btree_insert_non_full (cs ! ?i) key data sz p h = Some (r, h')"
        and okr: "slots_ok r"
        by blast
      have all: "\<forall>c \<in> set (cs[?i := r]). slots_ok c"
        using cok okr set_update_subset_insert[of cs ?i r] by auto
      have "slots_ok (Node leaf ks (cs[?i := r]))"
        using all room len False by simp
      then show ?thesis
        using False i_lt nf r by (simp add: Let_def del: slots_ok.simps)
    qed
  qed
qed

lemma btree_insert_total:
  assumes "case root tree of None \<Rightarrow> True | Some r \<Rightarrow> slots_ok r"
    and cp: "copy_payload h data data_size p = Some h'"
  shows "\<exists>tree' r'. btree_insert tree key data data_size p h = Some (tree', h')
      \<and> root tree' = Some r' \<and> slots_ok r'"
proof (cases "root tree")
  case None
  then show ?thesis by (simp add: btree_insert_def cp ORDER_def)
next
  case (Some r)
  with assms(1) have ok: "slots_ok r" by simp
  show ?thesis
  proof (cases "num_keys r = ORDER - 1")
    case False
    with ok have "num_keys r < ORDER - 1" by (cases r) auto
    from insert_non_full_total[OF ok this cp, of key]
    show ?thesis using Some False by (auto simp: btree_insert_def)
  next
    case True
    obtain rl rks rcs where r: "r = Node rl rks rcs" by (cases r)
    from True r have "length rks = 4" by (simp add: ORDER_def)
    then obtain k0 k1 k2 k3 where rks: "rks = [k0, k1, k2, k3]" by (rule length4)
    from ok r rks have cc: "rl \<or> length rcs = 5" by (auto simp: ORDER_def)
    define L where "L = Node rl [k0] (if rl then rcs else take 2 rcs)"
    define R where "R = Node rl [k2] (if rl then [] else take 2 (drop 2 rcs))"
    define i :: nat where "i = (if kv_key k1 < key then 1 else 0)"
    have sp: "btree_split_child (Node False [] [r]) 0 = Some (Node False [k1] [L, R])"
      using split_child_full[of 0 "[r]" "[]" rl k0 k1 k2 k3 rcs False] cc
      by (simp add: r rks L_def R_def ORDER_def)
    from ok r rks have okL: "slots_ok L" and okR: "slots_ok R"
      by (auto simp: L_def R_def ORDER_def dest!: in_set_takeD in_set_dropD)
    have nk: "num_keys L < ORDER - 1" "num_keys R < ORDER - 1"
      by (simp_all add: L_def R_def ORDER_def)
    have chi: "[L, R] ! i = (if kv_key k1 < key then R else L)" by (simp add: i_def)
    have "\<exists>c. btree_insert_non_full ([L, R] ! i) key data data_size p h = Some (c, h') \<and> slots_ok c"
      using insert_non_full_total[OF okL nk(1) cp, of key]
        insert_non_full_total[OF okR nk(2) cp, of key]
      by (simp add: chi)
    then obtain c where c: "btree_insert_non_full ([L, R] ! i) key data data_size p h = Some (c, h')"
      and okc: "slots_ok c"
      by blast
    have "slots_ok (Node False [k1] ([L, R][i := c]))"
      using okL okR okc by (auto simp: i_def ORDER_def)
    then show ?thesis
      using Some True sp c
      by (simp add: btree_insert_def Let_def i_def del: slots_ok.simps)
  qed
qed

lemma btree_insert_search:
  assumes "case root tree of None \<Rightarrow> True
           | Some r \<Rightarrow> slots_ok r \<and> keys_sorted r \<and> key \<notin> node_keys r"
    and cp: "copy_payload h data data_size p = Some h'"
  shows "\<exists>tree'. btree_insert tree key data data_size p h = Some (tree', h')
      \<and> btree_search tree' key = Some (Some \<lparr>value_data = Some p, value_data_size = data_size\<rparr>)"
proof (cases "root tree")
  case None
  then show ?thesis by (simp add: btree_insert_def cp btree_search_def)
next
  let ?v = "\<lparr>value_data = Some p, value_data_size = data_size\<rparr>"
  case (Some r)
  with assms(1) have ok: "slots_ok r" and so: "keys_sorted r" and notin: "key \<notin> node_keys r"
    by auto
  show ?thesis
  proof (cases "num_keys r = ORDER - 1")
    case False
    with ok have "num_keys r < ORDER - 1" by (cases r) auto
    from insert_non_full_search[OF ok so this notin cp]
    show ?thesis using Some False by (auto simp: btree_insert_def btree_search_def)
  next
    case True
    obtain rl rks rcs where r: "r = Node rl rks rcs" by (cases r)
    from True r have "length rks = 4" by (simp add: ORDER_def)
    then obtain k0 k1 k2 k3 where rks: "rks = [k0, k1, k2, k3]" by (rule length4)
    from ok r rks have cc: "rl \<or> length rcs = 5" by (auto simp: ORDER_def)
    define L where "L = Node rl [k0] (if rl then rcs else take 2 rcs)"
    define R where "R = Node rl [k2] (if rl then [] else take 2 (drop 2 rcs))"
    define i :: nat where "i = (if kv_key k1 < key then 1 else 0)"
    have sp: "btree_split_child (Node False [] [r]) 0 = Some (Node False [k1] [L, R])"
      using split_child_full[of 0 "[r]" "[]" rl k0 k1 k2 k3 rcs False] cc
      by (simp add: r rks L_def R_def ORDER_def)
    from ok r rks have okL: "slots_ok L" and okR: "slots_ok R"
      by (auto simp: L_def R_def ORDER_def dest!: in_set_takeD in_set_dropD)
    from so r rks have sL: "keys_sorted L" and sR: "keys_sorted R"
      by (auto simp: L_def R_def dest!: in_set_takeD in_set_dropD)
    from notin r rks have nL: "key \<notin> node_keys L" and nR: "key \<notin> node_keys R"
      and nk1: "key \<noteq> kv_key k1"
      by (auto simp: L_def R_def dest!: in_set_takeD in_set_dropD)
    have nk: "num_keys L < ORDER - 1" "num_keys R < ORDER - 1"
      by (simp_all add: L_def R_def ORDER_def)
    have chi: "[L, R] ! i = (if kv_key k1 < key then R else L)" by (simp add: i_def)
    have "\<exists>c. btree_insert_non_full ([L, R] ! i) key data data_size p h = Some (c, h')
        \<and> btree_search_node c key = Some (Some ?v)"
      using insert_non_full_search[OF okL sL nk(1) nL cp]
        insert_non_full_search[OF okR sR nk(2) nR cp]
      by (simp add: chi)
    then obtain c where c: "btree_insert_non_full ([L, R] ! i) key data data_size p h = Some (c, h')"
      and sc: "btree_search_node c key = Some (Some ?v)"
      by blast
    have "key_index key [k1] = i" by (simp add: i_def)
    then have "btree_search_node (Node False [k1] ([L, R][i := c])) key
        = btree_search_node (([L, R][i := c]) ! i) key"
      using nk1 by (intro search_node_descend) (simp_all add: i_def)
    then have "btree_search_node (Node False [k1] ([L, R][i := c])) key = Some (Some ?v)"
      using sc by (simp add: i_def)
    then show ?thesis
      using Some True sp c
      by (simp add: btree_insert_def btree_search_def Let_def i_def
            del: btree_search_node.simps)
  qed
qed

text \<open>
  C9, as stated, fails. A key inserted a second time gets a second slot behind the
  first one, and the search stops at the first: after inserting key 7 with the byte
  9 and then key 7 with the byte 5, the search for 7 returns the block holding 9,
  not the bytes passed to the last insert. And a later insert can remove a key from
  the tree: in the full root with the keys 1, 2, 3, 4 the search for 4 succeeds, and
  after the insert of 5, which splits the root, the search for 4 returns NULL.
\<close>

theorem btree_insert_stored_key_counterexample:
  "insert_all (btree_create, caller_heap) [(7, 109, 1, 1), (7, 105, 1, 2)]
     = Some (\<lparr>root = Some (Node True
                [\<lparr>kv_key = 7, kv_value = \<lparr>value_data = Some 1, value_data_size = 1\<rparr>\<rparr>,
                 \<lparr>kv_key = 7, kv_value = \<lparr>value_data = Some 2, value_data_size = 1\<rparr>\<rparr>] []),
              min_degree = 3\<rparr>,
             caller_heap(1 \<mapsto> [9], 2 \<mapsto> [5]))
   \<and> caller_heap 105 = Some [5]
   \<and> btree_search
        \<lparr>root = Some (Node True
                [\<lparr>kv_key = 7, kv_value = \<lparr>value_data = Some 1, value_data_size = 1\<rparr>\<rparr>,
                 \<lparr>kv_key = 7, kv_value = \<lparr>value_data = Some 2, value_data_size = 1\<rparr>\<rparr>] []),
              min_degree = 3\<rparr> 7
       = Some (Some \<lparr>value_data = Some 1, value_data_size = 1\<rparr>)
   \<and> payload (caller_heap(1 \<mapsto> [9], 2 \<mapsto> [5])) \<lparr>value_data = Some 1, value_data_size = 1\<rparr>
       = Some [9]
   \<and> btree_insert
        \<lparr>root = Some (Node True
                [\<lparr>kv_key = 1, kv_value = \<lparr>value_data = Some 1, value_data_size = 1\<rparr>\<rparr>,
                 \<lparr>kv_key = 2, kv_value = \<lparr>value_data = Some 2, value_data_size = 1\<rparr>\<rparr>,
                 \<lparr>kv_key = 3, kv_value = \<lparr>value_data = Some 3, value_data_size = 1\<rparr>\<rparr>,
                 \<lparr>kv_key = 4, kv_value = \<lparr>value_data = Some 4, value_data_size = 1\<rparr>\<rparr>] []),
              min_degree = 3\<rparr> 5 105 1 5 caller_heap
       = Some (\<lparr>root = Some (Node False
                  [\<lparr>kv_key = 2, kv_value = \<lparr>value_data = Some 2, value_data_size = 1\<rparr>\<rparr>]
                  [Node True [\<lparr>kv_key = 1, kv_value = \<lparr>value_data = Some 1, value_data_size = 1\<rparr>\<rparr>] [],
                   Node True [\<lparr>kv_key = 3, kv_value = \<lparr>value_data = Some 3, value_data_size = 1\<rparr>\<rparr>,
                              \<lparr>kv_key = 5, kv_value = \<lparr>value_data = Some 5, value_data_size = 1\<rparr>\<rparr>] []]),
                min_degree = 3\<rparr>,
               caller_heap(5 \<mapsto> [5]))
   \<and> btree_search
        \<lparr>root = Some (Node False
                  [\<lparr>kv_key = 2, kv_value = \<lparr>value_data = Some 2, value_data_size = 1\<rparr>\<rparr>]
                  [Node True [\<lparr>kv_key = 1, kv_value = \<lparr>value_data = Some 1, value_data_size = 1\<rparr>\<rparr>] [],
                   Node True [\<lparr>kv_key = 3, kv_value = \<lparr>value_data = Some 3, value_data_size = 1\<rparr>\<rparr>,
                              \<lparr>kv_key = 5, kv_value = \<lparr>value_data = Some 5, value_data_size = 1\<rparr>\<rparr>] []]),
                min_degree = 3\<rparr> 4
       = Some None"
  by (simp add: caller_heap_def btree_create_def btree_insert_def
        btree_split_child_def copy_payload_def insert_index_def ORDER_def Let_def
        btree_search_def payload_def)

text \<open>
  C9, amended. Every \<open>btree_insert\<close> from a caller's block \<open>data\<close> with at least
  \<open>data_size\<close> bytes, into the fresh block \<open>p\<close> that \<open>malloc\<close> returned, returns,
  and the only change of the heap is that \<open>p\<close> now holds the first \<open>data_size\<close>
  bytes of the caller's block as they were at the call; whatever the caller does to
  its own block afterwards (overwriting it, freeing it) leaves that payload as it
  is. If the keys of every node increase strictly and the key is not stored yet,
  the search for the key directly after the insert returns the value with pointer
  \<open>p\<close> and size \<open>data_size\<close>, whose payload is that byte sequence. Nothing is
  said for a key that is already stored, nor for a search after further inserts.
  (\<open>slots_ok\<close>, the hypothesis on the tree, holds again after the insert.)
\<close>

theorem btree_insert_snapshot:
  assumes "case root tree of None \<Rightarrow> True | Some r \<Rightarrow> slots_ok r"
    and "h data = Some bytes" and "data_size \<le> length bytes" and "h p = None"
  shows "\<exists>tree'. btree_insert tree key data data_size p h
                    = Some (tree', h(p \<mapsto> take data_size bytes))
      \<and> (case root tree' of None \<Rightarrow> False | Some r' \<Rightarrow> slots_ok r')
      \<and> ((case root tree of None \<Rightarrow> True | Some r \<Rightarrow> keys_sorted r \<and> key \<notin> node_keys r)
           \<longrightarrow> btree_search tree' key
                 = Some (Some \<lparr>value_data = Some p, value_data_size = data_size\<rparr>))
      \<and> payload (h(p \<mapsto> take data_size bytes)) \<lparr>value_data = Some p, value_data_size = data_size\<rparr>
           = Some (take data_size bytes)
      \<and> (\<forall>later. payload ((h(p \<mapsto> take data_size bytes))(data := later))
                     \<lparr>value_data = Some p, value_data_size = data_size\<rparr>
           = Some (take data_size bytes))"
proof -
  let ?v = "\<lparr>value_data = Some p, value_data_size = data_size\<rparr>"
  let ?h' = "h(p \<mapsto> take data_size bytes)"
  have cp: "copy_payload h data data_size p = Some ?h'"
    using assms(2,3) by (rule copy_payload_fresh)
  from assms(2,4) have ne: "data \<noteq> p" by auto
  have pay: "payload ?h' ?v = Some (take data_size bytes)"
    and later: "\<forall>later. payload (?h'(data := later)) ?v = Some (take data_size bytes)"
    using ne by (simp_all add: payload_def)
  from btree_insert_total[OF assms(1) cp, of key]
  obtain tree' r' where ins: "btree_insert tree key data data_size p h = Some (tree', ?h')"
    and r': "root tree' = Some r'" "slots_ok r'"
    by blast
  have "btree_search tree' key = Some (Some ?v)"
    if fresh: "case root tree of None \<Rightarrow> True | Some r \<Rightarrow> keys_sorted r \<and> key \<notin> node_keys r"
  proof -
    from assms(1) fresh
    have "case root tree of None \<Rightarrow> True
           | Some r \<Rightarrow> slots_ok r \<and> keys_sorted r \<and> key \<notin> node_keys r"
      by (simp split: option.splits)
    from btree_insert_search[OF this cp] ins show ?thesis by auto
  qed
  with ins r' pay later show ?thesis by auto
qed

theorem btree_insert_snapshot_witness:
  "\<exists>tree'. btree_insert
       \<lparr>root = Some (Node True
          [\<lparr>kv_key = 1, kv_value = \<lparr>value_data = Some 1, value_data_size = 1\<rparr>\<rparr>,
           \<lparr>kv_key = 2, kv_value = \<lparr>value_data = Some 2, value_data_size = 1\<rparr>\<rparr>,
           \<lparr>kv_key = 3, kv_value = \<lparr>value_data = Some 3, value_data_size = 1\<rparr>\<rparr>,
           \<lparr>kv_key = 4, kv_value = \<lparr>value_data = Some 4, value_data_size = 1\<rparr>\<rparr>] []),
        min_degree = 3\<rparr> 5 105 1 5 caller_heap
      = Some (tree', caller_heap(5 \<mapsto> [5]))
     \<and> (case root tree' of None \<Rightarrow> False | Some r' \<Rightarrow> slots_ok r')
     \<and> btree_search tree' 5 = Some (Some \<lparr>value_data = Some 5, value_data_size = 1\<rparr>)
     \<and> payload ((caller_heap(5 \<mapsto> [5]))(105 := None)) \<lparr>value_data = Some 5, value_data_size = 1\<rparr>
          = Some [5]"
proof -
  let ?t = "\<lparr>root = Some (Node True
          [\<lparr>kv_key = 1, kv_value = \<lparr>value_data = Some 1, value_data_size = 1\<rparr>\<rparr>,
           \<lparr>kv_key = 2, kv_value = \<lparr>value_data = Some 2, value_data_size = 1\<rparr>\<rparr>,
           \<lparr>kv_key = 3, kv_value = \<lparr>value_data = Some 3, value_data_size = 1\<rparr>\<rparr>,
           \<lparr>kv_key = 4, kv_value = \<lparr>value_data = Some 4, value_data_size = 1\<rparr>\<rparr>] []),
        min_degree = 3\<rparr>"
  have a1: "case root ?t of None \<Rightarrow> True | Some r \<Rightarrow> slots_ok r"
    by (simp add: ORDER_def)
  have a2: "caller_heap 105 = Some [5]" and a3: "(1::nat) \<le> length [5 :: byte]"
    and a4: "caller_heap 5 = None"
    by (simp_all add: caller_heap_def)
  have fresh: "case root ?t of None \<Rightarrow> True | Some r \<Rightarrow> keys_sorted r \<and> 5 \<notin> node_keys r"
    by simp
  from btree_insert_snapshot[OF a1 a2 a3 a4, of 5]
  obtain tree' where "btree_insert ?t 5 105 1 5 caller_heap = Some (tree', caller_heap(5 \<mapsto> [5]))"
    and "case root tree' of None \<Rightarrow> False | Some r' \<Rightarrow> slots_ok r'"
    and "(case root ?t of None \<Rightarrow> True | Some r \<Rightarrow> keys_sorted r \<and> 5 \<notin> node_keys r)
           \<longrightarrow> btree_search tree' 5 = Some (Some \<lparr>value_data = Some 5, value_data_size = 1\<rparr>)"
    and "\<forall>later. payload ((caller_heap(5 \<mapsto> [5]))(105 := later))
            \<lparr>value_data = Some 5, value_data_size = 1\<rparr> = Some [5]"
    by auto
  with fresh show ?thesis by blast
qed


section \<open>B-tree: deletion\<close>

subsection \<open>The in-order walk\<close>

lemma weave_append:
  "length cs1 = length ks1 \<Longrightarrow>
   weave (cs1 @ cs2) (ks1 @ ks2) = concat (map2 (\<lambda>c k. c @ [k]) cs1 ks1) @ weave cs2 ks2"
proof (induction cs1 arbitrary: ks1)
  case Nil
  then show ?case by simp
next
  case (Cons c cs1)
  then obtain k ks1' where "ks1 = k # ks1'" by (cases ks1) auto
  with Cons show ?case by simp
qed

lemma weave_snoc:
  "length cs1 = length ks1 + 1 \<Longrightarrow>
   weave (cs1 @ cs2) (ks1 @ k # ks2) = weave cs1 ks1 @ k # weave cs2 ks2"
proof (induction cs1 arbitrary: ks1)
  case Nil
  then show ?case by simp
next
  case (Cons c cs1)
  show ?case
  proof (cases ks1)
    case Nil
    with Cons.prems show ?thesis by simp
  next
    case (Cons k1 ks1')
    with Cons.prems Cons.IH[of ks1'] show ?thesis by simp
  qed
qed

lemma weave_join: "weave (a # b # cs) (k # ks) = weave ((a @ k # b) # cs) ks"
  by (cases ks) auto

lemma weave_keys_subset: "set ks \<subseteq> set (weave cs ks)"
proof (induction ks arbitrary: cs)
  case Nil
  then show ?case by simp
next
  case (Cons k ks)
  then show ?case by (cases cs) (auto simp: subset_iff)
qed

lemma weave_child_subset:
  "length cs = length ks + 1 \<Longrightarrow> j < length cs \<Longrightarrow> set (cs ! j) \<subseteq> set (weave cs ks)"
proof (induction ks arbitrary: cs j)
  case Nil
  then show ?case by (cases cs) auto
next
  case (Cons k ks)
  then obtain c cs' where cs: "cs = c # cs'" by (cases cs) auto
  show ?case
  proof (cases j)
    case 0
    then show ?thesis by (auto simp: cs)
  next
    case (Suc j')
    with Cons.prems cs Cons.IH[of cs' j'] show ?thesis by (auto simp: subset_iff)
  qed
qed

lemma weave_sorted_keys: "sorted_wrt R (weave cs ks) \<Longrightarrow> sorted_wrt R ks"
proof (induction ks arbitrary: cs)
  case Nil
  then show ?case by simp
next
  case (Cons k ks)
  show ?case
  proof (cases cs)
    case Nil
    with Cons.prems Cons.IH[of "[]"] weave_keys_subset[of ks "[]"] show ?thesis by auto
  next
    case (Cons c cs')
    with Cons.prems Cons.IH[of cs'] weave_keys_subset[of ks cs'] show ?thesis
      by (auto simp: sorted_wrt_append)
  qed
qed

lemma weave_sorted_child:
  "sorted_wrt R (weave cs ks) \<Longrightarrow> length cs = length ks + 1 \<Longrightarrow> j < length cs \<Longrightarrow>
   sorted_wrt R (cs ! j)"
proof (induction ks arbitrary: cs j)
  case Nil
  then show ?case by (cases cs) auto
next
  case (Cons k ks)
  then obtain c cs' where cs: "cs = c # cs'" by (cases cs) auto
  show ?case
  proof (cases j)
    case 0
    with Cons.prems cs show ?thesis by (simp add: sorted_wrt_append)
  next
    case (Suc j')
    with Cons.prems cs Cons.IH[of cs' j'] show ?thesis by (simp add: sorted_wrt_append)
  qed
qed

lemma weave_sorted_index:
  assumes "sorted_wrt (\<lambda>a b. kv_key a < kv_key b) (weave cs ks)"
    and "length cs = length ks + 1" "j < length cs" "x \<in> set (cs ! j)"
  shows "key_index (kv_key x) ks = j"
  using assms
proof (induction ks arbitrary: cs j)
  case Nil
  then show ?case by simp
next
  case (Cons k ks)
  then obtain c cs' where cs: "cs = c # cs'" by (cases cs) auto
  show ?case
  proof (cases j)
    case 0
    with Cons.prems cs show ?thesis by (auto simp: sorted_wrt_append)
  next
    case (Suc j')
    with Cons.prems cs have x: "x \<in> set (cs' ! j')" and j': "j' < length cs'"
      and len: "length cs' = length ks + 1" by auto
    from weave_child_subset[OF len j'] x have "x \<in> set (weave cs' ks)" by auto
    with Cons.prems(1) cs have "kv_key k < kv_key x" by (auto simp: sorted_wrt_append)
    moreover from Cons.prems(1) cs have "sorted_wrt (\<lambda>a b. kv_key a < kv_key b) (weave cs' ks)"
      by (simp add: sorted_wrt_append)
    ultimately show ?thesis using Cons.IH[OF _ len j' x] Suc by simp
  qed
qed

lemma key_index_found:
  "sorted_wrt (\<lambda>a b. kv_key a < kv_key b) ks \<Longrightarrow> x \<in> set ks \<Longrightarrow>
   key_index (kv_key x) ks < length ks \<and> kv_key (ks ! key_index (kv_key x) ks) = kv_key x"
  by (induction ks) auto

lemma key_index_not_found:
  assumes "key \<notin> kv_key ` set ks"
  shows "\<not> (key_index key ks < length ks \<and> kv_key (ks ! key_index key ks) = key)"
proof
  note a = assms
  assume b: "key_index key ks < length ks \<and> kv_key (ks ! key_index key ks) = key"
  from b have "ks ! key_index key ks \<in> set ks" by simp
  with a b show False by (metis image_eqI)
qed

lemma weave_two:
  assumes "i < length ks" "Suc i < length cs"
  shows "weave cs ks = concat (map2 (\<lambda>c k. c @ [k]) (take i cs) (take i ks))
           @ weave ((cs ! i @ ks ! i # cs ! Suc i) # drop (Suc (Suc i)) cs) (drop (Suc i) ks)"
proof -
  have cs: "cs = take i cs @ cs ! i # cs ! Suc i # drop (Suc (Suc i)) cs"
    using assms(2) by (metis Cons_nth_drop_Suc Suc_lessD id_take_nth_drop)
  have ks: "ks = take i ks @ ks ! i # drop (Suc i) ks"
    using assms(1) by (rule id_take_nth_drop)
  have len: "length (take i cs) = length (take i ks)" using assms by simp
  have "weave cs ks = weave (take i cs @ cs ! i # cs ! Suc i # drop (Suc (Suc i)) cs)
            (take i ks @ ks ! i # drop (Suc i) ks)"
    using cs ks by simp
  also have "\<dots> = concat (map2 (\<lambda>c k. c @ [k]) (take i cs) (take i ks))
           @ weave (cs ! i # cs ! Suc i # drop (Suc (Suc i)) cs) (ks ! i # drop (Suc i) ks)"
    using len by (rule weave_append)
  finally show ?thesis by (simp only: weave_join)
qed

lemma weave_two_cong:
  assumes "i < length ks" "Suc i < length cs" "length ks' = length ks" "length cs' = length cs"
    and "take i cs' = take i cs" "take i ks' = take i ks"
    and "drop (Suc (Suc i)) cs' = drop (Suc (Suc i)) cs" "drop (Suc i) ks' = drop (Suc i) ks"
    and "cs' ! i @ ks' ! i # cs' ! Suc i = cs ! i @ ks ! i # cs ! Suc i"
  shows "weave cs' ks' = weave cs ks"
  using weave_two[of i ks cs] weave_two[of i ks' cs'] assms by simp

lemma inorder_internal: "\<not> is_leaf n \<Longrightarrow> inorder n = weave (map inorder (children n)) (keys n)"
  by (cases n) simp

lemma inorder_leaf: "is_leaf n \<Longrightarrow> inorder n = keys n"
  by (cases n) simp


lemma inorder_cons_child:
  "inorder (Node l (k # ks) (if l then cs else g # cs))
     = (if l then [] else inorder g) @ k # inorder (Node l ks cs)"
  by simp

lemma inorder_snoc_child:
  assumes "\<not> l \<longrightarrow> length cs = length ks + 1"
  shows "inorder (Node l (ks @ [k]) (if l then cs else cs @ [g]))
     = inorder (Node l ks cs) @ k # (if l then [] else inorder g)"
proof (cases l)
  case True
  then show ?thesis by simp
next
  case False
  with assms have "length (map inorder cs) = length ks + 1" by simp
  from weave_snoc[OF this, of "[inorder g]" k "[]"] False show ?thesis by simp
qed

lemma inorder_merge:
  assumes "\<not> l \<longrightarrow> length cs1 = length ks1 + 1"
  shows "inorder (Node l (ks1 @ [k] @ ks2) (if l then cs1 else cs1 @ cs2))
     = inorder (Node l ks1 cs1) @ k # inorder (Node l ks2 cs2)"
proof (cases l)
  case True
  then show ?thesis by simp
next
  case False
  with assms have "length (map inorder cs1) = length ks1 + 1" by simp
  from weave_snoc[OF this, of "map inorder cs2" k ks2] False show ?thesis by simp
qed

lemma inorder_last_split:
  assumes "0 < length ks" "\<not> l \<longrightarrow> length cs = length ks + 1"
  shows "inorder (Node l ks cs)
     = inorder (Node l (take (length ks - 1) ks) (take (length ks) cs))
       @ ks ! (length ks - 1) # (if l then [] else inorder (cs ! length ks))"
proof -
  let ?n = "length ks"
  have ks: "ks = take (?n - 1) ks @ [ks ! (?n - 1)]"
    using assms(1) by (metis Suc_diff_1 lessI order_refl take_Suc_conv_app_nth take_all)
  show ?thesis
  proof (cases l)
    case True
    with ks show ?thesis by simp
  next
    case False
    with assms have len: "length cs = ?n + 1" by simp
    then have cs: "cs = take ?n cs @ [cs ! ?n]"
      by (metis Suc_eq_plus1 lessI order_refl take_Suc_conv_app_nth take_all)
    have "length (map inorder (take ?n cs)) = length (take (?n - 1) ks) + 1"
      using len assms(1) by simp
    from weave_snoc[OF this, of "[inorder (cs ! ?n)]" "ks ! (?n - 1)" "[]"]
    have "weave (map inorder (take ?n cs @ [cs ! ?n])) (take (?n - 1) ks @ [ks ! (?n - 1)])
        = weave (map inorder (take ?n cs)) (take (?n - 1) ks) @ ks ! (?n - 1) # inorder (cs ! ?n)"
      by simp
    with cs ks have "weave (map inorder cs) ks
        = weave (map inorder (take ?n cs)) (take (?n - 1) ks) @ ks ! (?n - 1) # inorder (cs ! ?n)"
      by simp
    with False show ?thesis by simp
  qed
qed

lemma inorder_first_split:
  assumes "0 < length ks" "\<not> l \<longrightarrow> 0 < length cs"
  shows "inorder (Node l ks cs)
     = (if l then [] else inorder (cs ! 0)) @ ks ! 0
         # inorder (Node l (drop 1 ks) (if l then cs else drop 1 cs))"
proof -
  from assms(1) obtain k ks' where ks: "ks = k # ks'" by (cases ks) auto
  show ?thesis
  proof (cases l)
    case True
    with ks show ?thesis by simp
  next
    case False
    with assms obtain c cs' where "cs = c # cs'" by (cases cs) auto
    with False ks show ?thesis by simp
  qed
qed

lemma list_update_two:
  assumes "Suc i < length xs"
  shows "xs[i := a, Suc i := b] = take i xs @ a # b # drop (Suc (Suc i)) xs"
proof -
  have "xs[i := a] = take i xs @ a # drop (Suc i) xs"
    using assms by (simp add: upd_conv_take_nth_drop)
  moreover have "drop (Suc i) xs = xs ! Suc i # drop (Suc (Suc i)) xs"
    using assms by (simp add: Cons_nth_drop_Suc)
  ultimately have "xs[i := a, Suc i := b] = (take i xs @ a # xs ! Suc i # drop (Suc (Suc i)) xs)[Suc i := b]"
    by simp
  also have "\<dots> = take i xs @ a # b # drop (Suc (Suc i)) xs"
    using assms by (simp add: list_update_append)
  finally show ?thesis .
qed

lemma parent_two:
  assumes "i < length ks" "length cs = length ks + 1"
    and "inorder a @ k' # inorder b = inorder (cs ! i) @ ks ! i # inorder (cs ! Suc i)"
  shows "inorder (Node False (ks[i := k']) (cs[i := a, Suc i := b])) = inorder (Node False ks cs)"
proof -
  have "weave (map inorder (cs[i := a, Suc i := b])) (ks[i := k']) = weave (map inorder cs) ks"
  proof (rule weave_two_cong[where i = i])
    show "i < length ks" by (rule assms(1))
    show "Suc i < length (map inorder cs)" using assms by simp
    show "map inorder (cs[i := a, Suc i := b]) ! i @ ks[i := k'] ! i
            # map inorder (cs[i := a, Suc i := b]) ! Suc i
          = map inorder cs ! i @ ks ! i # map inorder cs ! Suc i"
      using assms by simp
  qed (use assms in \<open>simp_all add: take_map drop_map\<close>)
  then show ?thesis by simp
qed

lemma parent_merge:
  assumes "i < length ks" "length cs = length ks + 1"
    and "inorder m = inorder (cs ! i) @ ks ! i # inorder (cs ! Suc i)"
  shows "inorder (Node False (take i ks @ drop (Suc i) ks) (take i cs @ [m] @ drop (i + 2) cs))
     = inorder (Node False ks cs)"
proof -
  have len: "length (map inorder (take i cs)) = length (take i ks)" using assms by simp
  have "weave (map inorder (take i cs @ [m] @ drop (i + 2) cs)) (take i ks @ drop (Suc i) ks)
      = concat (map2 (\<lambda>c k. c @ [k]) (map inorder (take i cs)) (take i ks))
          @ weave (inorder m # map inorder (drop (i + 2) cs)) (drop (Suc i) ks)"
    using weave_append[OF len, of "inorder m # map inorder (drop (i + 2) cs)" "drop (Suc i) ks"]
    by simp
  moreover have "weave (map inorder cs) ks
      = concat (map2 (\<lambda>c k. c @ [k]) (take i (map inorder cs)) (take i ks))
          @ weave ((map inorder cs ! i @ ks ! i # map inorder cs ! Suc i)
                     # drop (Suc (Suc i)) (map inorder cs)) (drop (Suc i) ks)"
    using assms by (intro weave_two) simp_all
  ultimately show ?thesis using assms by (simp add: take_map drop_map)
qed


subsection \<open>Borrowing and merging on well-shaped nodes\<close>

lemma btree_shape_sel:
  "btree_shape d n \<longleftrightarrow>
     1 \<le> num_keys n \<and> num_keys n \<le> ORDER - 1 \<and>
     (case d of 0 \<Rightarrow> is_leaf n
      | Suc d' \<Rightarrow> \<not> is_leaf n \<and> length (children n) = num_keys n + 1
                  \<and> (\<forall>c \<in> set (children n). btree_shape d' c))"
  by (cases n; cases d) auto

lemma btree_shape_leaf: "btree_shape d n \<Longrightarrow> is_leaf n \<longleftrightarrow> d = 0"
  by (cases n; cases d) auto

lemma borrow_from_prev_ok:
  assumes sh: "btree_shape (Suc d) (Node l ks cs)" and i: "0 < i" "i \<le> length ks"
    and c1: "num_keys (cs ! i) < ORDER div 2" and s2: "ORDER div 2 \<le> num_keys (cs ! (i - 1))"
  shows "\<exists>ks' cs'. btree_borrow_from_prev (Node l ks cs) i = Some (Node False ks' cs')
      \<and> inorder (Node False ks' cs') = inorder (Node l ks cs)
      \<and> length ks' = length ks \<and> length cs' = length ks' + 1
      \<and> (\<forall>c \<in> set cs'. btree_shape d c)
      \<and> set (inorder (cs ! i)) \<subseteq> set (inorder (cs' ! i))"
proof -
  from i obtain j where j: "i = Suc j" by (cases i) auto
  from sh have l: "\<not> l" and len: "length cs = length ks + 1"
    and all: "\<forall>c \<in> set cs. btree_shape d c" by auto
  obtain cl ck cc where c: "cs ! Suc j = Node cl ck cc" by (cases "cs ! Suc j")
  obtain sl sk sc where s: "cs ! j = Node sl sk sc" by (cases "cs ! j")
  from i len j have mem: "cs ! Suc j \<in> set cs" "cs ! j \<in> set cs" by simp_all
  with all c s have shc: "btree_shape d (Node cl ck cc)" and shs: "btree_shape d (Node sl sk sc)"
    by metis+
  from shc shs have leaf: "cl = (d = 0)" "sl = (d = 0)"
    using btree_shape_leaf[of d "Node cl ck cc"] btree_shape_leaf[of d "Node sl sk sc"] by simp_all
  from c1 c j have ck: "length ck < 2" by (simp add: ORDER_def)
  from s2 s j have sk: "2 \<le> length sk" by (simp add: ORDER_def)
  then have skne: "sk \<noteq> []" by auto
  from shs have sk4: "length sk \<le> 4" and sc: "\<not> sl \<longrightarrow> length sc = length sk + 1"
    by (auto simp: btree_shape_sel[of d] ORDER_def split: nat.splits)
  from shc have ck1: "1 \<le> length ck" and cc: "\<not> cl \<longrightarrow> length cc = length ck + 1"
    by (auto simp: btree_shape_sel[of d] split: nat.splits)
  define c' where "c' = Node cl (ks ! j # ck) (if cl then cc else sc ! length sk # cc)"
  define s' where "s' = Node sl (take (length sk - 1) sk) (take (length sk) sc)"
  have res: "btree_borrow_from_prev (Node l ks cs) i
      = Some (Node False (ks[j := sk ! (length sk - 1)]) (cs[j := s', Suc j := c']))"
    using i len l ck skne sc leaf
    by (simp add: btree_borrow_from_prev_def Let_def j c s c'_def s'_def ORDER_def)
  have shc': "btree_shape d c'"
  proof (cases d)
    case 0
    with leaf ck show ?thesis by (simp add: c'_def ORDER_def)
  next
    case (Suc d')
    with leaf sc have "sc ! length sk \<in> set sc" by simp
    with shs shc Suc leaf ck cc show ?thesis by (auto simp: c'_def ORDER_def)
  qed
  have shs': "btree_shape d s'"
  proof (cases d)
    case 0
    with leaf sk sk4 show ?thesis by (simp add: s'_def ORDER_def; arith)
  next
    case (Suc d')
    with shs leaf sk sk4 sc show ?thesis
      by (auto simp: s'_def ORDER_def dest!: in_set_takeD)
  qed
  have "inorder (Node sl sk sc) = inorder s' @ sk ! (length sk - 1)
          # (if sl then [] else inorder (sc ! length sk))"
    unfolding s'_def using skne sc by (intro inorder_last_split) simp_all
  moreover have "inorder c' = (if cl then [] else inorder (sc ! length sk))
          @ ks ! j # inorder (Node cl ck cc)"
    unfolding c'_def by (rule inorder_cons_child)
  ultimately have io: "inorder s' @ sk ! (length sk - 1) # inorder c'
      = inorder (cs ! j) @ ks ! j # inorder (cs ! Suc j)"
    using leaf by (simp add: c s)
  have "inorder (Node False (ks[j := sk ! (length sk - 1)]) (cs[j := s', Suc j := c']))
      = inorder (Node False ks cs)"
    using i j len io by (intro parent_two) simp_all
  then have ino: "inorder (Node False (ks[j := sk ! (length sk - 1)]) (cs[j := s', Suc j := c']))
      = inorder (Node l ks cs)"
    using l by simp
  have "set (cs[j := s', Suc j := c']) \<subseteq> insert c' (insert s' (set cs))"
    by (meson insert_mono order_trans set_update_subset_insert)
  with all shc' shs' have all': "\<forall>x \<in> set (cs[j := s', Suc j := c']). btree_shape d x" by auto
  have sub: "set (inorder (cs ! i)) \<subseteq> set (inorder ((cs[j := s', Suc j := c']) ! i))"
    using i j len by (auto simp: c c'_def)
  from res ino all' sub len show ?thesis by simp
qed

lemma borrow_from_next_ok:
  assumes sh: "btree_shape (Suc d) (Node l ks cs)" and i: "i < length ks"
    and c1: "num_keys (cs ! i) < ORDER div 2" and s2: "ORDER div 2 \<le> num_keys (cs ! Suc i)"
  shows "\<exists>ks' cs'. btree_borrow_from_next (Node l ks cs) i = Some (Node False ks' cs')
      \<and> inorder (Node False ks' cs') = inorder (Node l ks cs)
      \<and> length ks' = length ks \<and> length cs' = length ks' + 1
      \<and> (\<forall>c \<in> set cs'. btree_shape d c)
      \<and> set (inorder (cs ! i)) \<subseteq> set (inorder (cs' ! i))"
proof -
  from sh have l: "\<not> l" and len: "length cs = length ks + 1"
    and all: "\<forall>c \<in> set cs. btree_shape d c" by auto
  obtain cl ck cc where c: "cs ! i = Node cl ck cc" by (cases "cs ! i")
  obtain sl sk sc where s: "cs ! Suc i = Node sl sk sc" by (cases "cs ! Suc i")
  from i len have mem: "cs ! i \<in> set cs" "cs ! Suc i \<in> set cs" by simp_all
  with all c s have shc: "btree_shape d (Node cl ck cc)" and shs: "btree_shape d (Node sl sk sc)"
    by metis+
  from shc shs have leaf: "cl = (d = 0)" "sl = (d = 0)"
    using btree_shape_leaf[of d "Node cl ck cc"] btree_shape_leaf[of d "Node sl sk sc"] by simp_all
  from c1 c have ck: "length ck < 2" by (simp add: ORDER_def)
  from s2 s have sk: "2 \<le> length sk" by (simp add: ORDER_def)
  from shs have sk4: "length sk \<le> 4" and sc: "\<not> sl \<longrightarrow> length sc = length sk + 1"
    by (auto simp: btree_shape_sel[of d] ORDER_def split: nat.splits)
  from shc have ck1: "1 \<le> length ck" and cc: "\<not> cl \<longrightarrow> length cc = length ck + 1"
    by (auto simp: btree_shape_sel[of d] split: nat.splits)
  from sk have skne: "sk \<noteq> []" by auto
  from sk sc have scne: "\<not> sl \<longrightarrow> sc \<noteq> []" by auto
  define c' where "c' = Node cl (ck @ [ks ! i]) (if cl then cc else cc @ [sc ! 0])"
  define s' where "s' = Node sl (drop 1 sk) (if sl then sc else drop 1 sc)"
  have res: "btree_borrow_from_next (Node l ks cs) i
      = Some (Node False (ks[i := sk ! 0]) (cs[i := c', Suc i := s']))"
    using i len l ck skne scne leaf
    by (simp add: btree_borrow_from_next_def Let_def c s c'_def s'_def ORDER_def)
  have shc': "btree_shape d c'"
  proof (cases d)
    case 0
    with leaf ck show ?thesis by (simp add: c'_def ORDER_def)
  next
    case (Suc d')
    with leaf sc sk have "sc ! 0 \<in> set sc" by simp
    with shs shc Suc leaf ck cc show ?thesis by (auto simp: c'_def ORDER_def)
  qed
  have shs': "btree_shape d s'"
  proof (cases d)
    case 0
    with leaf sk sk4 show ?thesis by (simp add: s'_def ORDER_def; arith)
  next
    case (Suc d')
    with shs leaf sk sk4 sc show ?thesis
      by (auto simp: s'_def ORDER_def dest!: in_set_dropD)
  qed
  have "inorder (Node sl sk sc) = (if sl then [] else inorder (sc ! 0)) @ sk ! 0 # inorder s'"
    unfolding s'_def using skne scne by (intro inorder_first_split) auto
  moreover have ioc: "inorder c' = inorder (Node cl ck cc) @ ks ! i # (if cl then [] else inorder (sc ! 0))"
    unfolding c'_def using cc by (intro inorder_snoc_child) simp
  ultimately have io: "inorder c' @ sk ! 0 # inorder s'
      = inorder (cs ! i) @ ks ! i # inorder (cs ! Suc i)"
    using leaf by (simp add: c s)
  have "inorder (Node False (ks[i := sk ! 0]) (cs[i := c', Suc i := s'])) = inorder (Node False ks cs)"
    using i len io by (intro parent_two) simp_all
  then have ino: "inorder (Node False (ks[i := sk ! 0]) (cs[i := c', Suc i := s'])) = inorder (Node l ks cs)"
    using l by simp
  have "set (cs[i := c', Suc i := s']) \<subseteq> insert s' (insert c' (set cs))"
    by (meson insert_mono order_trans set_update_subset_insert)
  with all shc' shs' have all': "\<forall>x \<in> set (cs[i := c', Suc i := s']). btree_shape d x" by auto
  have sub: "set (inorder (cs ! i)) \<subseteq> set (inorder ((cs[i := c', Suc i := s']) ! i))"
    using i len ioc by (auto simp add: c simp del: inorder.simps)
  from res ino all' sub len show ?thesis by simp
qed

lemma merge_children_ok:
  assumes sh: "btree_shape (Suc d) (Node l ks cs)" and i: "i < length ks"
    and c1: "num_keys (cs ! i) < ORDER div 2" and s1: "num_keys (cs ! Suc i) < ORDER div 2"
  shows "\<exists>ks' cs'. btree_merge_children (Node l ks cs) i = Some (Node False ks' cs')
      \<and> inorder (Node False ks' cs') = inorder (Node l ks cs)
      \<and> Suc (length ks') = length ks \<and> length cs' = length ks' + 1
      \<and> (\<forall>c \<in> set cs'. btree_shape d c) \<and> i < length cs'
      \<and> set (inorder (cs ! i)) \<subseteq> set (inorder (cs' ! i))
      \<and> set (inorder (cs ! Suc i)) \<subseteq> set (inorder (cs' ! i))"
proof -
  from sh have l: "\<not> l" and len: "length cs = length ks + 1"
    and all: "\<forall>c \<in> set cs. btree_shape d c" by auto
  obtain cl ck cc where c: "cs ! i = Node cl ck cc" by (cases "cs ! i")
  obtain sl sk sc where s: "cs ! Suc i = Node sl sk sc" by (cases "cs ! Suc i")
  from i len have mem: "cs ! i \<in> set cs" "cs ! Suc i \<in> set cs" by simp_all
  with all c s have shc: "btree_shape d (Node cl ck cc)" and shs: "btree_shape d (Node sl sk sc)"
    by metis+
  from shc shs have leaf: "cl = (d = 0)" "sl = (d = 0)"
    using btree_shape_leaf[of d "Node cl ck cc"] btree_shape_leaf[of d "Node sl sk sc"] by simp_all
  from c1 c have ck: "length ck < 2" by (simp add: ORDER_def)
  from s1 s have sk: "length sk < 2" by (simp add: ORDER_def)
  from shs have sk1: "1 \<le> length sk" and sc: "\<not> sl \<longrightarrow> length sc = length sk + 1"
    by (auto simp: btree_shape_sel[of d] split: nat.splits)
  from shc have ck1: "1 \<le> length ck" and cc: "\<not> cl \<longrightarrow> length cc = length ck + 1"
    by (auto simp: btree_shape_sel[of d] split: nat.splits)
  define m where "m = Node cl (ck @ [ks ! i] @ sk) (if cl then cc else cc @ sc)"
  have res: "btree_merge_children (Node l ks cs) i
      = Some (Node False (take i ks @ drop (Suc i) ks) (take i cs @ [m] @ drop (i + 2) cs))"
    using i len l ck sk sc cc leaf
    by (simp add: btree_merge_children_def Let_def c s m_def ORDER_def)
  have shm: "btree_shape d m"
  proof (cases d)
    case 0
    with leaf ck sk show ?thesis by (simp add: m_def ORDER_def)
  next
    case (Suc d')
    with shs shc leaf ck sk cc sc show ?thesis by (auto simp: m_def ORDER_def)
  qed
  have iom: "inorder m = inorder (Node cl ck cc) @ ks ! i # inorder (Node sl sk sc)"
    unfolding m_def using cc leaf by (simp only: inorder_merge)
  then have "inorder m = inorder (cs ! i) @ ks ! i # inorder (cs ! Suc i)"
    by (simp add: c s)
  then have "inorder (Node False (take i ks @ drop (Suc i) ks) (take i cs @ [m] @ drop (i + 2) cs))
      = inorder (Node False ks cs)"
    using i len by (intro parent_merge) simp_all
  then have ino: "inorder (Node False (take i ks @ drop (Suc i) ks) (take i cs @ [m] @ drop (i + 2) cs))
      = inorder (Node l ks cs)"
    using l by simp
  have all': "\<forall>x \<in> set (take i cs @ [m] @ drop (i + 2) cs). btree_shape d x"
    using all shm by (auto dest!: in_set_takeD in_set_dropD)
  have nth: "(take i cs @ [m] @ drop (i + 2) cs) ! i = m"
    using i len by (simp add: nth_append)
  have sub: "set (inorder (cs ! i)) \<subseteq> set (inorder m)" "set (inorder (cs ! Suc i)) \<subseteq> set (inorder m)"
    using iom by (auto simp: c s)
  have lens: "Suc (length (take i ks @ drop (Suc i) ks)) = length ks"
    "length (take i cs @ [m] @ drop (i + 2) cs) = length (take i ks @ drop (Suc i) ks) + 1"
    "i < length (take i cs @ [m] @ drop (i + 2) cs)"
    using i len by auto
  from res ino all' sub lens nth i len show ?thesis by (auto simp del: append.simps)
qed


lemma fill_child_ok:
  assumes sh: "btree_shape (Suc d) (Node l ks cs)" and i: "i \<le> length ks"
    and c1: "num_keys (cs ! i) < ORDER div 2"
  shows "\<exists>ks' cs'. btree_fill_child (Node l ks cs) i = Some (Node False ks' cs')
      \<and> inorder (Node False ks' cs') = inorder (Node l ks cs)
      \<and> length cs' = length ks' + 1
      \<and> (\<forall>c \<in> set cs'. btree_shape d c)
      \<and> (if i = length ks \<and> i > length ks' then i - 1 else i) < length cs'
      \<and> set (inorder (cs ! i))
           \<subseteq> set (inorder (cs' ! (if i = length ks \<and> i > length ks' then i - 1 else i)))"
proof -
  from sh have len: "length cs = length ks + 1" and ks1: "1 \<le> length ks" by auto
  consider (from_prev) "i \<noteq> 0" "ORDER div 2 \<le> num_keys (cs ! (i - 1))"
    | (from_next) "\<not> (i \<noteq> 0 \<and> ORDER div 2 \<le> num_keys (cs ! (i - 1)))"
        "i \<noteq> length ks" "ORDER div 2 \<le> num_keys (cs ! (i + 1))"
    | (merge_last) "\<not> (i \<noteq> 0 \<and> ORDER div 2 \<le> num_keys (cs ! (i - 1)))" "i = length ks"
    | (merge_next) "\<not> (i \<noteq> 0 \<and> ORDER div 2 \<le> num_keys (cs ! (i - 1)))"
        "i \<noteq> length ks" "\<not> ORDER div 2 \<le> num_keys (cs ! (i + 1))"
    by blast
  then show ?thesis
  proof cases
    case from_prev
    then have f: "btree_fill_child (Node l ks cs) i = btree_borrow_from_prev (Node l ks cs) i"
      using i len by (simp add: btree_fill_child_def)
    from from_prev have "0 < i" by simp
    from borrow_from_prev_ok[OF sh this i c1 from_prev(2)]
    obtain ks' cs' where r: "btree_borrow_from_prev (Node l ks cs) i = Some (Node False ks' cs')"
      "inorder (Node False ks' cs') = inorder (Node l ks cs)"
      "length ks' = length ks" "length cs' = length ks' + 1"
      "\<forall>c \<in> set cs'. btree_shape d c"
      "set (inorder (cs ! i)) \<subseteq> set (inorder (cs' ! i))"
      by blast
    have j: "(if i = length ks \<and> i > length ks' then i - 1 else i) = i" using r(3) by auto
    show ?thesis
      apply (intro exI[of _ ks'] exI[of _ cs'])
      unfolding j f using r i by simp
  next
    case from_next
    then have f: "btree_fill_child (Node l ks cs) i = btree_borrow_from_next (Node l ks cs) i"
      using i len by (auto simp: btree_fill_child_def)
    from from_next i have lt: "i < length ks" by simp
    from from_next have s2: "ORDER div 2 \<le> num_keys (cs ! Suc i)" by simp
    from borrow_from_next_ok[OF sh lt c1 s2]
    obtain ks' cs' where r: "btree_borrow_from_next (Node l ks cs) i = Some (Node False ks' cs')"
      "inorder (Node False ks' cs') = inorder (Node l ks cs)"
      "length ks' = length ks" "length cs' = length ks' + 1"
      "\<forall>c \<in> set cs'. btree_shape d c"
      "set (inorder (cs ! i)) \<subseteq> set (inorder (cs' ! i))"
      by blast
    have j: "(if i = length ks \<and> i > length ks' then i - 1 else i) = i" using r(3) by auto
    show ?thesis
      apply (intro exI[of _ ks'] exI[of _ cs'])
      unfolding j f using r i by simp
  next
    case merge_last
    with ks1 have i0: "i \<noteq> 0" and p: "num_keys (cs ! (i - 1)) < ORDER div 2" by auto
    then obtain j0 where j0: "i = Suc j0" by (cases i) auto
    have "length ks - Suc 0 = j0" using merge_last(2) j0 by simp
    then have f: "btree_fill_child (Node l ks cs) i = btree_merge_children (Node l ks cs) j0"
      using merge_last i0 len p j0 by (simp add: btree_fill_child_def)
    have lt: "j0 < length ks" using merge_last j0 by simp
    from p j0 have p': "num_keys (cs ! j0) < ORDER div 2" by simp
    from c1 j0 have c1': "num_keys (cs ! Suc j0) < ORDER div 2" by simp
    from merge_children_ok[OF sh lt p' c1']
    obtain ks' cs' where r: "btree_merge_children (Node l ks cs) j0 = Some (Node False ks' cs')"
      "inorder (Node False ks' cs') = inorder (Node l ks cs)"
      "Suc (length ks') = length ks" "length cs' = length ks' + 1"
      "\<forall>c \<in> set cs'. btree_shape d c" "j0 < length cs'"
      "set (inorder (cs ! Suc j0)) \<subseteq> set (inorder (cs' ! j0))"
      by blast
    have j: "(if i = length ks \<and> i > length ks' then i - 1 else i) = j0"
      using r(3) merge_last(2) j0 by simp
    show ?thesis
      apply (intro exI[of _ ks'] exI[of _ cs'])
      unfolding j f using r j0 by simp
  next
    case merge_next
    with i have lt: "i < length ks" by simp
    have f: "btree_fill_child (Node l ks cs) i = btree_merge_children (Node l ks cs) i"
      using merge_next lt len by (auto simp: btree_fill_child_def)
    from merge_next have s1: "num_keys (cs ! Suc i) < ORDER div 2" by simp
    from merge_children_ok[OF sh lt c1 s1]
    obtain ks' cs' where r: "btree_merge_children (Node l ks cs) i = Some (Node False ks' cs')"
      "inorder (Node False ks' cs') = inorder (Node l ks cs)"
      "Suc (length ks') = length ks" "length cs' = length ks' + 1"
      "\<forall>c \<in> set cs'. btree_shape d c" "i < length cs'"
      "set (inorder (cs ! i)) \<subseteq> set (inorder (cs' ! i))"
      by blast
    have j: "(if i = length ks \<and> i > length ks' then i - 1 else i) = i"
      using lt by simp
    show ?thesis
      apply (intro exI[of _ ks'] exI[of _ cs'])
      unfolding j f using r by simp
  qed
qed

lemma descend_prep:
  assumes sh: "btree_shape (Suc d) (Node l ks cs)" and i: "i \<le> length ks"
  shows "\<exists>ks' cs'. (if num_keys (cs ! i) < ORDER div 2 then btree_fill_child (Node l ks cs) i
                     else Some (Node l ks cs)) = Some (Node False ks' cs')
      \<and> inorder (Node False ks' cs') = inorder (Node l ks cs)
      \<and> length cs' = length ks' + 1
      \<and> (\<forall>c \<in> set cs'. btree_shape d c)
      \<and> (if i = length ks \<and> i > length ks' then i - 1 else i) < length cs'
      \<and> set (inorder (cs ! i))
           \<subseteq> set (inorder (cs' ! (if i = length ks \<and> i > length ks' then i - 1 else i)))"
proof (cases "num_keys (cs ! i) < ORDER div 2")
  case True
  with fill_child_ok[OF sh i True] show ?thesis by simp
next
  case False
  from sh have "\<not> l" "length cs = length ks + 1" "\<forall>c \<in> set cs. btree_shape d c" by auto
  with False i show ?thesis by (intro exI[of _ ks] exI[of _ cs]) auto
qed

lemma delete_descend:
  assumes "\<not> l" and "\<not> (key_index key ks < length ks \<and> kv_key (ks ! key_index key ks) = key)"
    and "key_index key ks < length cs"
    and "(if num_keys (cs ! key_index key ks) < ORDER div 2
          then btree_fill_child (Node l ks cs) (key_index key ks)
          else Some (Node l ks cs)) = Some (Node False ks' cs')"
    and "j = (if key_index key ks = length ks \<and> key_index key ks > length ks'
              then key_index key ks - 1 else key_index key ks)"
    and "j < length cs'"
  shows "btree_delete_from_node (Node l ks cs) key h =
    (case btree_delete_from_node (cs' ! j) key h of
       None \<Rightarrow> None
     | Some (result, c, h') \<Rightarrow> Some (result, Node False ks' (cs'[j := c]), h'))"
proof -
  let ?i = "key_index key ks"
  let ?prep = "if num_keys (children (Node l ks cs) ! ?i) < ORDER div 2
               then btree_fill_child (Node l ks cs) ?i else Some (Node l ks cs)"
  have p: "?prep = Some (Node False ks' cs')" using assms(4) by simp
  have j: "(if (?i = num_keys (Node l ks cs)) \<and> ?i > num_keys (Node False ks' cs')
            then ?i - 1 else ?i) = j"
    using assms(5) by simp
  have "btree_delete_from_node (Node l ks cs) key h =
      (let flag = (?i = num_keys (Node l ks cs))
       in case ?prep of
            None \<Rightarrow> None
          | Some node' \<Rightarrow>
              (let j = (if flag \<and> ?i > num_keys node' then ?i - 1 else ?i)
               in if j < length (children node') then
                    (case btree_delete_from_node (children node' ! j) key h of
                       None \<Rightarrow> None
                     | Some (result, c, h') \<Rightarrow>
                         Some (result,
                               Node (is_leaf node') (keys node') ((children node')[j := c]), h'))
                  else None))"
    using assms(1,2,3)
    by (subst btree_delete_from_node.simps) (simp only: Let_def BTreeNode.sel if_False if_True)
  also have "\<dots> = (case btree_delete_from_node (cs' ! j) key h of
       None \<Rightarrow> None
     | Some (result, c, h') \<Rightarrow> Some (result, Node False ks' (cs'[j := c]), h'))"
    unfolding Let_def p option.case j using assms(6)
    by (simp only: BTreeNode.sel if_True)
  finally show ?thesis .
qed

lemma inorder_update_same:
  assumes "inorder c = inorder (cs ! j)"
  shows "inorder (Node l ks (cs[j := c])) = inorder (Node l ks cs)"
proof -
  have "map inorder (cs[j := c]) = map inorder cs"
  proof (cases "j < length cs")
    case True
    with assms show ?thesis by (simp add: map_update list_update_same_conv)
  next
    case False
    then show ?thesis by (simp add: list_update_beyond)
  qed
  then show ?thesis by simp
qed

lemma inorder_child_subset:
  assumes "length cs = length ks + 1" "j < length cs"
  shows "set (inorder (cs ! j)) \<subseteq> set (inorder (Node False ks cs))"
  using weave_child_subset[of "map inorder cs" ks j] assms by simp

lemma delete_absent:
  "btree_shape d n \<Longrightarrow> key \<notin> kv_key ` set (inorder n) \<Longrightarrow>
   \<exists>n'. btree_delete_from_node n key h = Some (False, n', h) \<and> inorder n' = inorder n"
proof (induction d arbitrary: n)
  case 0
  then obtain l ks cs where n: "n = Node l ks cs" by (cases n)
  with 0 have l: "l" and notin: "key \<notin> kv_key ` set ks" by auto
  from key_index_not_found[OF notin] l show ?case
    by (subst btree_delete_from_node.simps) (auto simp: n Let_def)
next
  case (Suc d)
  obtain l ks cs where n: "n = Node l ks cs" by (cases n)
  with Suc.prems have sh: "btree_shape (Suc d) (Node l ks cs)" by simp
  then have l: "\<not> l" and len: "length cs = length ks + 1" by auto
  let ?i = "key_index key ks"
  have ile: "?i \<le> length ks" by (rule key_index_le)
  from Suc.prems(2) n l weave_keys_subset[of ks "map inorder cs"]
  have notin: "key \<notin> kv_key ` set ks" by auto
  from descend_prep[OF sh ile] obtain ks' cs' where
    prep: "(if num_keys (cs ! ?i) < ORDER div 2 then btree_fill_child (Node l ks cs) ?i
            else Some (Node l ks cs)) = Some (Node False ks' cs')"
    and ino: "inorder (Node False ks' cs') = inorder (Node l ks cs)"
    and len': "length cs' = length ks' + 1"
    and all': "\<forall>c \<in> set cs'. btree_shape d c"
    and j: "(if ?i = length ks \<and> ?i > length ks' then ?i - 1 else ?i) < length cs'"
    by blast
  define j where "j = (if ?i = length ks \<and> ?i > length ks' then ?i - 1 else ?i)"
  from j have jlt: "j < length cs'" by (simp add: j_def)
  with all' have shj: "btree_shape d (cs' ! j)" by simp
  from inorder_child_subset[OF len' jlt] ino Suc.prems(2) n
  have "key \<notin> kv_key ` set (inorder (cs' ! j))" by auto
  from Suc.IH[OF shj this] obtain c where
    c: "btree_delete_from_node (cs' ! j) key h = Some (False, c, h)"
    and ic: "inorder c = inorder (cs' ! j)" by blast
  have "btree_delete_from_node (Node l ks cs) key h = Some (False, Node False ks' (cs'[j := c]), h)"
    using delete_descend[OF l key_index_not_found[OF notin] _ prep j_def jlt, of h] ile len c
    by simp
  moreover have "inorder (Node False ks' (cs'[j := c])) = inorder (Node l ks cs)"
    using inorder_update_same[OF ic] ino by simp
  ultimately show ?case by (simp add: n del: inorder.simps)
qed

subsection \<open>Deleting a key\<close>

lemma pred_loop_total: "btree_shape d n \<Longrightarrow> \<exists>k. get_predecessor_loop n = Some k"
proof (induction d arbitrary: n)
  case 0
  then show ?case by (cases n) auto
next
  case (Suc d)
  obtain l ks cs where n: "n = Node l ks cs" by (cases n)
  with Suc.prems have "\<not> l" "length ks < length cs" "btree_shape d (cs ! length ks)" by auto
  with Suc.IH[of "cs ! length ks"] show ?case by (simp add: n)
qed

lemma succ_loop_total: "btree_shape d n \<Longrightarrow> \<exists>k. get_successor_loop n = Some k"
proof (induction d arbitrary: n)
  case 0
  then show ?case by (cases n) auto
next
  case (Suc d)
  obtain l ks cs where n: "n = Node l ks cs" by (cases n)
  with Suc.prems have "\<not> l" "0 < length cs" "btree_shape d (cs ! 0)" by auto
  with Suc.IH[of "cs ! 0"] show ?case by (simp add: n)
qed

lemma shape_update_keys:
  "btree_shape d c \<Longrightarrow> btree_shape d (Node (is_leaf c) ((keys c)[i := v]) (children c))"
  by (cases c; cases d) auto

lemma remove_from_non_leaf_total:
  assumes IH: "\<And>n key h. btree_shape d n \<Longrightarrow> \<exists>r. btree_delete_from_node n key h = Some r"
    and sh: "btree_shape (Suc d) (Node l ks cs)" and i: "idx < length ks"
  shows "\<exists>r. btree_remove_from_non_leaf (Node l ks cs) idx h = Some r"
proof -
  from sh have l: "\<not> l" and len: "length cs = length ks + 1"
    and all: "\<forall>c \<in> set cs. btree_shape d c" by auto
  from i len have shc: "btree_shape d (cs ! idx)" and shs: "btree_shape d (cs ! Suc idx)"
    using all by simp_all
  consider (a) "ORDER div 2 \<le> num_keys (cs ! idx)"
    | (b) "\<not> ORDER div 2 \<le> num_keys (cs ! idx)" "ORDER div 2 \<le> num_keys (cs ! Suc idx)"
    | (c) "\<not> ORDER div 2 \<le> num_keys (cs ! idx)" "\<not> ORDER div 2 \<le> num_keys (cs ! Suc idx)"
    by blast
  then show ?thesis
  proof cases
    case a
    from pred_loop_total[OF shc] i len obtain pred where
      p: "btree_get_predecessor (Node l ks cs) idx = Some pred"
      by (auto simp: btree_get_predecessor_def)
    let ?child = "cs ! idx"
    let ?last = "num_keys ?child - 1"
    let ?moved = "kv_value (keys ?child ! ?last)"
    let ?child1 = "Node (is_leaf ?child)
          ((keys ?child)[?last := \<lparr>kv_key = kv_key (keys ?child ! ?last),
                                    kv_value = ?moved\<lparr>value_data := None\<rparr>\<rparr>])
          (children ?child)"
    let ?h1 = "free_block h (value_data (kv_value (ks ! idx)))"
    from IH[OF shape_update_keys[OF shc], of ?last _ pred ?h1]
    obtain r where r: "btree_delete_from_node ?child1 pred ?h1 = Some r" by blast
    show ?thesis
      using a i len p r
      by (subst btree_remove_from_non_leaf.simps) (simp add: Let_def split: prod.splits)
  next
    case b
    from succ_loop_total[OF shs] i len obtain succ where
      p: "btree_get_successor (Node l ks cs) idx = Some succ"
      by (auto simp: btree_get_successor_def)
    let ?child = "cs ! Suc idx"
    let ?moved = "kv_value (keys ?child ! 0)"
    let ?child1 = "Node (is_leaf ?child)
          ((keys ?child)[0 := \<lparr>kv_key = kv_key (keys ?child ! 0),
                                kv_value = ?moved\<lparr>value_data := None\<rparr>\<rparr>])
          (children ?child)"
    let ?h1 = "free_block h (value_data (kv_value (ks ! idx)))"
    from IH[OF shape_update_keys[OF shs], of 0 _ succ ?h1]
    obtain r where r: "btree_delete_from_node ?child1 succ ?h1 = Some r" by blast
    show ?thesis
      using b i len p r
      by (subst btree_remove_from_non_leaf.simps) (simp add: Let_def split: prod.splits)
  next
    case c
    then have c1: "num_keys (cs ! idx) < ORDER div 2" and s1: "num_keys (cs ! Suc idx) < ORDER div 2"
      by simp_all
    from merge_children_ok[OF sh i c1 s1] obtain ks' cs' where
      m: "btree_merge_children (Node l ks cs) idx = Some (Node False ks' cs')"
      and all': "\<forall>c \<in> set cs'. btree_shape d c" and lt: "idx < length cs'"
      by blast
    from all' lt have "btree_shape d (cs' ! idx)" by simp
    from IH[OF this, of "kv_key (ks ! idx)" h]
    obtain r where r: "btree_delete_from_node (cs' ! idx) (kv_key (ks ! idx)) h = Some r" by blast
    show ?thesis
      using c i len m r lt
      by (subst btree_remove_from_non_leaf.simps) (simp add: Let_def split: prod.splits)
  qed
qed

lemma delete_found:
  assumes "key_index key ks < length ks \<and> kv_key (ks ! key_index key ks) = key"
  shows "btree_delete_from_node (Node l ks cs) key h =
    (if l then (case btree_remove_from_leaf (Node l ks cs) (key_index key ks) h of
                  None \<Rightarrow> None | Some (node', h') \<Rightarrow> Some (True, node', h'))
     else (case btree_remove_from_non_leaf (Node l ks cs) (key_index key ks) h of
                  None \<Rightarrow> None | Some (node', h') \<Rightarrow> Some (True, node', h')))"
proof -
  from assms have a: "key_index key ks < length ks" "kv_key (ks ! key_index key ks) = key"
    by simp_all
  show ?thesis
    by (subst btree_delete_from_node.simps)
       (simp only: Let_def BTreeNode.sel a if_True simp_thms)
qed

lemma delete_total:
  "btree_shape d n \<Longrightarrow> \<exists>r. btree_delete_from_node n key h = Some r"
proof (induction d arbitrary: n key h)
  case 0
  obtain l ks cs where n: "n = Node l ks cs" by (cases n)
  with 0 have l: "l" by simp
  show ?case
  proof (cases "key_index key ks < length ks \<and> kv_key (ks ! key_index key ks) = key")
    case True
    then show ?thesis
      unfolding n delete_found[OF True] using l
      by (auto simp: btree_remove_from_leaf_def)
  next
    case False
    with l show ?thesis
      by (subst btree_delete_from_node.simps) (auto simp: n Let_def)
  qed
next
  case (Suc d)
  obtain l ks cs where n: "n = Node l ks cs" by (cases n)
  with Suc.prems have sh: "btree_shape (Suc d) (Node l ks cs)" by simp
  then have l: "\<not> l" and len: "length cs = length ks + 1" by auto
  let ?i = "key_index key ks"
  have ile: "?i \<le> length ks" by (rule key_index_le)
  show ?case
  proof (cases "?i < length ks \<and> kv_key (ks ! ?i) = key")
    case True
    then have "?i < length ks" by simp
    from remove_from_non_leaf_total[OF Suc.IH sh this, of h]
    obtain r where "btree_remove_from_non_leaf (Node l ks cs) ?i h = Some r" by blast
    then show ?thesis
      unfolding n delete_found[OF True] using l by (auto split: prod.splits)
  next
    case False
    from descend_prep[OF sh ile] obtain ks' cs' where
      prep: "(if num_keys (cs ! ?i) < ORDER div 2 then btree_fill_child (Node l ks cs) ?i
              else Some (Node l ks cs)) = Some (Node False ks' cs')"
      and all': "\<forall>c \<in> set cs'. btree_shape d c"
      and j: "(if ?i = length ks \<and> ?i > length ks' then ?i - 1 else ?i) < length cs'"
      by blast
    define j where "j = (if ?i = length ks \<and> ?i > length ks' then ?i - 1 else ?i)"
    from j have jlt: "j < length cs'" by (simp add: j_def)
    with all' have "btree_shape d (cs' ! j)" by simp
    from Suc.IH[OF this, of key h] obtain r where
      r: "btree_delete_from_node (cs' ! j) key h = Some r" by blast
    have ilt: "?i < length cs" using ile len by simp
    show ?thesis
      unfolding n delete_descend[OF l False ilt prep j_def jlt, of h] r
      by (auto split: prod.splits)
  qed
qed


lemma weave_mem:
  "x \<in> set (weave cs ks) \<Longrightarrow> length cs = length ks + 1 \<Longrightarrow>
   x \<in> set ks \<or> (\<exists>j < length cs. x \<in> set (cs ! j))"
proof (induction ks arbitrary: cs)
  case Nil
  then show ?case by (cases cs) auto
next
  case (Cons k ks)
  then obtain c cs' where cs: "cs = c # cs'" by (cases cs) auto
  with Cons.prems have "x \<in> set c \<or> x = k \<or> x \<in> set (weave cs' ks)" by auto
  then show ?case
  proof (elim disjE)
    assume "x \<in> set c"
    then show ?thesis using cs by auto
  next
    assume "x = k"
    then show ?thesis by simp
  next
    assume "x \<in> set (weave cs' ks)"
    with Cons.IH[of cs'] Cons.prems(2) cs
    have "x \<in> set ks \<or> (\<exists>j < length cs'. x \<in> set (cs' ! j))" by simp
    then show ?thesis using cs by auto
  qed
qed

lemma sorted_key_inj:
  "sorted_wrt (\<lambda>a b. kv_key a < kv_key b) xs \<Longrightarrow> a \<in> set xs \<Longrightarrow> b \<in> set xs \<Longrightarrow>
   kv_key a = kv_key b \<Longrightarrow> a = b"
  by (induction xs) auto

lemma delete_present:
  "btree_shape d n \<Longrightarrow> sorted_wrt (\<lambda>a b. kv_key a < kv_key b) (inorder n) \<Longrightarrow>
   x \<in> set (inorder n) \<Longrightarrow>
   \<exists>n' h'. btree_delete_from_node n (kv_key x) h = Some (True, n', h')"
proof (induction d arbitrary: n)
  case 0
  obtain l ks cs where n: "n = Node l ks cs" by (cases n)
  with 0 have l: "l" and so: "sorted_wrt (\<lambda>a b. kv_key a < kv_key b) ks" and x: "x \<in> set ks"
    by auto
  from key_index_found[OF so x] have f: "key_index (kv_key x) ks < length ks
      \<and> kv_key (ks ! key_index (kv_key x) ks) = kv_key x" .
  show ?case
    unfolding n delete_found[OF f] using l f by (auto simp: btree_remove_from_leaf_def)
next
  case (Suc d)
  obtain l ks cs where n: "n = Node l ks cs" by (cases n)
  with Suc.prems have sh: "btree_shape (Suc d) (Node l ks cs)" by simp
  then have l: "\<not> l" and len: "length cs = length ks + 1" by auto
  from Suc.prems(2) n l have so: "sorted_wrt (\<lambda>a b. kv_key a < kv_key b) (weave (map inorder cs) ks)"
    by simp
  from Suc.prems(3) n l have xin: "x \<in> set (weave (map inorder cs) ks)" by simp
  let ?key = "kv_key x"
  let ?i = "key_index ?key ks"
  have ile: "?i \<le> length ks" by (rule key_index_le)
  have sok: "sorted_wrt (\<lambda>a b. kv_key a < kv_key b) ks" using so by (rule weave_sorted_keys)
  show ?case
  proof (cases "x \<in> set ks")
    case True
    from key_index_found[OF sok True] have f: "?i < length ks \<and> kv_key (ks ! ?i) = ?key" .
    then have "?i < length ks" by simp
    have tot: "\<And>n key h. btree_shape d n \<Longrightarrow> \<exists>r. btree_delete_from_node n key h = Some r"
      by (rule delete_total)
    from remove_from_non_leaf_total[where h = h, OF tot sh \<open>?i < length ks\<close>]
    obtain r where "btree_remove_from_non_leaf (Node l ks cs) ?i h = Some r" by blast
    then show ?thesis
      unfolding n delete_found[OF f] using l by (auto split: prod.splits)
  next
    case False
    from weave_mem[OF xin] len False obtain j0 where j0: "j0 < length cs" "x \<in> set (inorder (cs ! j0))"
      by auto
    have nf: "\<not> (?i < length ks \<and> kv_key (ks ! ?i) = ?key)"
    proof
      assume a: "?i < length ks \<and> kv_key (ks ! ?i) = ?key"
      then have "ks ! ?i \<in> set (weave (map inorder cs) ks)"
        using weave_keys_subset[of ks "map inorder cs"] by auto
      from sorted_key_inj[OF so this xin] a have "ks ! ?i = x" by simp
      with a False show False by (metis nth_mem)
    qed
    have "key_index (kv_key x) ks = j0"
      using so len j0 by (intro weave_sorted_index[where cs = "map inorder cs"]) simp_all
    with j0 have xi: "x \<in> set (inorder (cs ! ?i))" by simp
    from descend_prep[OF sh ile] obtain ks' cs' where
      prep: "(if num_keys (cs ! ?i) < ORDER div 2 then btree_fill_child (Node l ks cs) ?i
              else Some (Node l ks cs)) = Some (Node False ks' cs')"
      and ino: "inorder (Node False ks' cs') = inorder (Node l ks cs)"
      and len': "length cs' = length ks' + 1"
      and all': "\<forall>c \<in> set cs'. btree_shape d c"
      and j: "(if ?i = length ks \<and> ?i > length ks' then ?i - 1 else ?i) < length cs'"
      and sub: "set (inorder (cs ! ?i))
           \<subseteq> set (inorder (cs' ! (if ?i = length ks \<and> ?i > length ks' then ?i - 1 else ?i)))"
      by blast
    define j where "j = (if ?i = length ks \<and> ?i > length ks' then ?i - 1 else ?i)"
    from j have jlt: "j < length cs'" by (simp add: j_def)
    with all' have shj: "btree_shape d (cs' ! j)" by simp
    from sub xi have xj: "x \<in> set (inorder (cs' ! j))" unfolding j_def by blast
    from ino Suc.prems(2) n have "sorted_wrt (\<lambda>a b. kv_key a < kv_key b) (weave (map inorder cs') ks')"
      by simp
    from weave_sorted_child[OF this, of j] len' jlt
    have soj: "sorted_wrt (\<lambda>a b. kv_key a < kv_key b) (inorder (cs' ! j))" by simp
    from Suc.IH[OF shj soj xj] obtain c h' where
      r: "btree_delete_from_node (cs' ! j) ?key h = Some (True, c, h')" by blast
    have ilt: "?i < length cs" using ile len by simp
    show ?thesis
      unfolding n delete_descend[OF l nf ilt prep j_def jlt, of h] r by simp
  qed
qed

lemma shape_slots_ok: "btree_shape d n \<Longrightarrow> slots_ok n"
proof (induction d arbitrary: n)
  case 0
  then show ?case by (cases n) auto
next
  case (Suc d)
  then show ?case by (cases n) auto
qed

lemma shape_keys_sorted:
  "btree_shape d n \<Longrightarrow> sorted_wrt (\<lambda>a b. kv_key a < kv_key b) (inorder n) \<Longrightarrow> keys_sorted n"
proof (induction d arbitrary: n)
  case 0
  then show ?case by (cases n) (auto simp: sorted_wrt_map)
next
  case (Suc d)
  obtain l ks cs where n: "n = Node l ks cs" by (cases n)
  with Suc.prems have l: "\<not> l" and len: "length cs = length ks + 1"
    and all: "\<forall>c \<in> set cs. btree_shape d c"
    and so: "sorted_wrt (\<lambda>a b. kv_key a < kv_key b) (weave (map inorder cs) ks)"
    by auto
  have "keys_sorted c" if "c \<in> set cs" for c
  proof -
    from that obtain j where j: "j < length cs" "c = cs ! j" by (auto simp: in_set_conv_nth)
    from weave_sorted_child[OF so, of j] len j
    have "sorted_wrt (\<lambda>a b. kv_key a < kv_key b) (inorder c)" by simp
    with Suc.IH[of c] all that show ?thesis by simp
  qed
  with weave_sorted_keys[OF so] l show ?case by (simp add: n sorted_wrt_map)
qed

lemma shape_node_keys: "btree_shape d n \<Longrightarrow> node_keys n = kv_key ` set (inorder n)"
proof (induction d arbitrary: n)
  case 0
  then show ?case by (cases n) auto
next
  case (Suc d)
  obtain l ks cs where n: "n = Node l ks cs" by (cases n)
  with Suc.prems have l: "\<not> l" and len: "length cs = length ks + 1"
    and all: "\<forall>c \<in> set cs. btree_shape d c" by auto
  have "set (weave (map inorder cs) ks) = set ks \<union> (\<Union>c \<in> set cs. set (inorder c))"
  proof (intro equalityI subsetI)
    fix x assume "x \<in> set (weave (map inorder cs) ks)"
    from weave_mem[OF this] len
    have "x \<in> set ks \<or> (\<exists>j < length cs. x \<in> set (inorder (cs ! j)))" by auto
    then show "x \<in> set ks \<union> (\<Union>c \<in> set cs. set (inorder c))"
      using nth_mem[of _ cs] by blast
  next
    fix x assume "x \<in> set ks \<union> (\<Union>c \<in> set cs. set (inorder c))"
    then show "x \<in> set (weave (map inorder cs) ks)"
    proof
      assume "x \<in> set ks"
      then show ?thesis using weave_keys_subset[of ks "map inorder cs"] by auto
    next
      assume "x \<in> (\<Union>c \<in> set cs. set (inorder c))"
      then obtain c where c: "c \<in> set cs" "x \<in> set (inorder c)" by blast
      from c(1) obtain j where "j < length cs" "cs ! j = c" by (meson in_set_conv_nth)
      with c(2) have "j < length cs" "x \<in> set (inorder (cs ! j))" by simp_all
      then show ?thesis using weave_child_subset[of "map inorder cs" ks j] len by auto
    qed
  qed
  moreover have "node_keys c = kv_key ` set (inorder c)" if "c \<in> set cs" for c
    using Suc.IH[of c] all that by simp
  ultimately show ?case using l by (auto simp: n)
qed

text \<open>
  A well-formed tree that does not hold \<open>key\<close> has sorted nodes with the right
  number of children and no node with that key: the conditions under which an
  insert is shown above to store a snapshot.
\<close>

lemma wf_insert_ready:
  assumes "btree_wf tree" "key \<notin> kv_key ` set (btree_entries tree)"
  shows "case root tree of None \<Rightarrow> True
         | Some r \<Rightarrow> slots_ok r \<and> keys_sorted r \<and> key \<notin> node_keys r"
proof (cases "root tree")
  case None
  then show ?thesis by simp
next
  case (Some r)
  with assms have sh: "btree_shape (depth r) r"
    and so: "sorted_wrt (\<lambda>a b. kv_key a < kv_key b) (inorder r)"
    and k: "key \<notin> kv_key ` set (inorder r)"
    by (simp_all add: btree_wf_def sorted_tree_def sorted_wrt_map btree_entries_def)
  from shape_slots_ok[OF sh] shape_keys_sorted[OF sh so] shape_node_keys[OF sh] k Some
  show ?thesis by simp
qed

text \<open>The tree that scenario B1 builds; it is well-formed in the sense above.\<close>

lemma scenario_B1_tree:
  "map_option fst (insert_all (btree_create, caller_heap) scenario_B1)
     = Some \<lparr>root = Some (Node False
       [\<lparr>kv_key = 6, kv_value = \<lparr>value_data = Some 4, value_data_size = 1\<rparr>\<rparr>,
        \<lparr>kv_key = 10, kv_value = \<lparr>value_data = Some 1, value_data_size = 1\<rparr>\<rparr>]
       [Node True [\<lparr>kv_key = 5, kv_value = \<lparr>value_data = Some 3, value_data_size = 1\<rparr>\<rparr>] [],
        Node True [\<lparr>kv_key = 7, kv_value = \<lparr>value_data = Some 7, value_data_size = 1\<rparr>\<rparr>] [],
        Node True [\<lparr>kv_key = 12, kv_value = \<lparr>value_data = Some 5, value_data_size = 1\<rparr>\<rparr>,
                   \<lparr>kv_key = 17, kv_value = \<lparr>value_data = Some 8, value_data_size = 1\<rparr>\<rparr>] []]),
     min_degree = 3\<rparr>"
  by (simp add: scenario_B1_def caller_heap_def btree_create_def btree_insert_def
        btree_split_child_def copy_payload_def insert_index_def ORDER_def Let_def)

lemma root_collapse:
  "num_keys r = 0 \<Longrightarrow>
   (case (if is_leaf r then None else (case children r of [] \<Rightarrow> None | c # _ \<Rightarrow> Some c)) of
      None \<Rightarrow> [] | Some c \<Rightarrow> inorder c) = inorder r"
  by (cases r) (auto split: list.splits)

text \<open>
  C5. On a well-formed tree (all leaves at one depth, one to \<open>ORDER - 1\<close> keys per
  node, keys increasing along the in-order walk): \<open>btree_delete\<close> of a key the
  tree does not hold returns false, frees nothing, and leaves the sequence of
  key/value slots of the tree as it was (the nodes may have been rearranged by
  \<open>btree_fill_child\<close> on the way down); \<open>btree_delete\<close> of a key the tree
  holds returns true.
\<close>

theorem btree_delete_result:
  assumes "btree_wf tree"
  shows "(key \<notin> kv_key ` set (btree_entries tree) \<longrightarrow>
            (\<exists>tree'. btree_delete tree key h = Some (False, tree', h)
               \<and> btree_entries tree' = btree_entries tree))
       \<and> (key \<in> kv_key ` set (btree_entries tree) \<longrightarrow>
            (\<exists>tree' h'. btree_delete tree key h = Some (True, tree', h')))"
proof (cases "root tree")
  case None
  then show ?thesis by (simp add: btree_delete_def btree_entries_def)
next
  case (Some r)
  with assms have sh: "btree_shape (depth r) r"
    and so: "sorted_wrt (\<lambda>a b. kv_key a < kv_key b) (inorder r)"
    by (simp_all add: btree_wf_def sorted_tree_def sorted_wrt_map)
  have e: "btree_entries tree = inorder r" using Some by (simp add: btree_entries_def)
  show ?thesis
  proof (intro conjI impI)
    assume "key \<notin> kv_key ` set (btree_entries tree)"
    then have "key \<notin> kv_key ` set (inorder r)" by (simp add: e)
    from delete_absent[OF sh this, of h] obtain r' where
      d: "btree_delete_from_node r key h = Some (False, r', h)" and i: "inorder r' = inorder r"
      by blast
    show "\<exists>tree'. btree_delete tree key h = Some (False, tree', h)
               \<and> btree_entries tree' = btree_entries tree"
    proof (cases "num_keys r' = 0")
      case True
      from root_collapse[OF True] i show ?thesis
        using Some d True by (simp add: btree_delete_def btree_entries_def)
    next
      case False
      with Some d i show ?thesis by (simp add: btree_delete_def btree_entries_def)
    qed
  next
    assume "key \<in> kv_key ` set (btree_entries tree)"
    then obtain x where x: "x \<in> set (inorder r)" "key = kv_key x" by (auto simp: e)
    from delete_present[OF sh so x(1), of h] x(2) obtain r' h' where
      "btree_delete_from_node r key h = Some (True, r', h')" by blast
    with Some show "\<exists>tree' h'. btree_delete tree key h = Some (True, tree', h')"
      by (simp add: btree_delete_def)
  qed
qed


theorem btree_delete_result_witness:
  "btree_wf \<lparr>root = Some (Node False
       [\<lparr>kv_key = 6, kv_value = \<lparr>value_data = Some 4, value_data_size = 1\<rparr>\<rparr>,
        \<lparr>kv_key = 10, kv_value = \<lparr>value_data = Some 1, value_data_size = 1\<rparr>\<rparr>]
       [Node True [\<lparr>kv_key = 5, kv_value = \<lparr>value_data = Some 3, value_data_size = 1\<rparr>\<rparr>] [],
        Node True [\<lparr>kv_key = 7, kv_value = \<lparr>value_data = Some 7, value_data_size = 1\<rparr>\<rparr>] [],
        Node True [\<lparr>kv_key = 12, kv_value = \<lparr>value_data = Some 5, value_data_size = 1\<rparr>\<rparr>,
                   \<lparr>kv_key = 17, kv_value = \<lparr>value_data = Some 8, value_data_size = 1\<rparr>\<rparr>] []]),
     min_degree = 3\<rparr>
   \<and> (\<exists>tree'. btree_delete \<lparr>root = Some (Node False
       [\<lparr>kv_key = 6, kv_value = \<lparr>value_data = Some 4, value_data_size = 1\<rparr>\<rparr>,
        \<lparr>kv_key = 10, kv_value = \<lparr>value_data = Some 1, value_data_size = 1\<rparr>\<rparr>]
       [Node True [\<lparr>kv_key = 5, kv_value = \<lparr>value_data = Some 3, value_data_size = 1\<rparr>\<rparr>] [],
        Node True [\<lparr>kv_key = 7, kv_value = \<lparr>value_data = Some 7, value_data_size = 1\<rparr>\<rparr>] [],
        Node True [\<lparr>kv_key = 12, kv_value = \<lparr>value_data = Some 5, value_data_size = 1\<rparr>\<rparr>,
                   \<lparr>kv_key = 17, kv_value = \<lparr>value_data = Some 8, value_data_size = 1\<rparr>\<rparr>] []]),
     min_degree = 3\<rparr> 8 caller_heap = Some (False, tree', caller_heap)
        \<and> map kv_key (btree_entries tree') = [5, 6, 7, 10, 12, 17])
   \<and> (\<exists>tree' h'. btree_delete \<lparr>root = Some (Node False
       [\<lparr>kv_key = 6, kv_value = \<lparr>value_data = Some 4, value_data_size = 1\<rparr>\<rparr>,
        \<lparr>kv_key = 10, kv_value = \<lparr>value_data = Some 1, value_data_size = 1\<rparr>\<rparr>]
       [Node True [\<lparr>kv_key = 5, kv_value = \<lparr>value_data = Some 3, value_data_size = 1\<rparr>\<rparr>] [],
        Node True [\<lparr>kv_key = 7, kv_value = \<lparr>value_data = Some 7, value_data_size = 1\<rparr>\<rparr>] [],
        Node True [\<lparr>kv_key = 12, kv_value = \<lparr>value_data = Some 5, value_data_size = 1\<rparr>\<rparr>,
                   \<lparr>kv_key = 17, kv_value = \<lparr>value_data = Some 8, value_data_size = 1\<rparr>\<rparr>] []]),
     min_degree = 3\<rparr> 6 caller_heap = Some (True, tree', h'))"
proof -
  let ?t = "\<lparr>root = Some (Node False
       [\<lparr>kv_key = 6, kv_value = \<lparr>value_data = Some 4, value_data_size = 1\<rparr>\<rparr>,
        \<lparr>kv_key = 10, kv_value = \<lparr>value_data = Some 1, value_data_size = 1\<rparr>\<rparr>]
       [Node True [\<lparr>kv_key = 5, kv_value = \<lparr>value_data = Some 3, value_data_size = 1\<rparr>\<rparr>] [],
        Node True [\<lparr>kv_key = 7, kv_value = \<lparr>value_data = Some 7, value_data_size = 1\<rparr>\<rparr>] [],
        Node True [\<lparr>kv_key = 12, kv_value = \<lparr>value_data = Some 5, value_data_size = 1\<rparr>\<rparr>,
                   \<lparr>kv_key = 17, kv_value = \<lparr>value_data = Some 8, value_data_size = 1\<rparr>\<rparr>] []]),
     min_degree = 3\<rparr>"
  have wf: "btree_wf ?t"
    by (simp add: btree_wf_def sorted_tree_def ORDER_def)
  have e: "map kv_key (btree_entries ?t) = [5, 6, 7, 10, 12, 17]"
    by (simp add: btree_entries_def)
  have a: "8 \<notin> kv_key ` set (btree_entries ?t)" and p: "6 \<in> kv_key ` set (btree_entries ?t)"
    by (simp_all add: btree_entries_def)
  from btree_delete_result[OF wf, of 8 caller_heap] a e
  have 1: "\<exists>tree'. btree_delete ?t 8 caller_heap = Some (False, tree', caller_heap)
        \<and> map kv_key (btree_entries tree') = [5, 6, 7, 10, 12, 17]"
    by auto
  from btree_delete_result[OF wf, of 6 caller_heap] p
  have 2: "\<exists>tree' h'. btree_delete ?t 6 caller_heap = Some (True, tree', h')"
    by blast
  from wf 1 2 show ?thesis by blast
qed

end
